theory Spec2Isabelle
  imports Complex_Main "HOL-Library.Word"
begin

section \<open>ddsmraw2pnm.c: calibration and grey-level normalisation\<close>

text \<open>
  The program computes with C++ \<open>double\<close> and \<open>unsigned int\<close>. A \<open>double\<close> is
  modelled by the real number it stands for and an unsigned integer by a natural
  number. The arithmetic of \<open>od2NormGreyLevel\<close> is the arithmetic of IEEE 754 binary64:
  each product and quotient is the exact result rounded to the nearest double, ties to
  the even significand. The optical densities that the four calibration functions
  hand to it are formed with exact arithmetic. A result \<open>None\<close> stands for behaviour
  the C++ standard leaves undefined (a floating-point value converted to an unsigned
  integer that cannot hold its integral part, or an overflowing signed multiplication).
\<close>

subsection \<open>Error codes and constants\<close>

definition success :: int where "success = 0"
definition syntax_error :: int where "syntax_error = - 1"
definition syntax_error_msg :: string where "syntax_error_msg = ''''"
definition rows_not_positive_error :: int where "rows_not_positive_error = - 2"
definition rows_not_positive_error_msg :: string where
  "rows_not_positive_error_msg = ''The number of rows must be positive.''"
definition cols_not_positive_error :: int where "cols_not_positive_error = - 3"
definition cols_not_positive_error_msg :: string where
  "cols_not_positive_error_msg = ''The number of cols must be positive.''"
definition file_error :: int where "file_error = - 4"
definition file_error_msg :: string where
  "file_error_msg = ''A file error was detected at runtime.''"
definition pnm_error :: int where "pnm_error = - 5"
definition pnm_error_msg :: string where
  "pnm_error_msg = ''Could not create the PNM file.''"
definition program_error :: int where "program_error = - 6"
definition program_error_msg :: string where
  "program_error_msg = ''Sorry, there is a problem with the program's source code!''"
definition image_size_error :: int where "image_size_error = - 7"

definition outputSuffix :: string where "outputSuffix = ''-ddsmraw2pnm.pnm''"

definition dba :: string where "dba = ''dba''"
definition howtek_mgh :: string where "howtek_mgh = ''howtek-mgh''"
definition howtek_ismd :: string where "howtek_ismd = ''howtek-ismd''"
definition lumisys :: string where "lumisys = ''lumisys''"

definition maxOD :: real where "maxOD = 4.0"
definition maxUnsignedIntWithNumBits :: nat where "maxUnsignedIntWithNumBits = 65535"

subsection \<open>Rounding to double precision\<close>

text \<open>
  A double other than zero is \<open>m * 2 ^ (e - 52)\<close> with an integer \<open>m\<close> of at most 53
  bits and \<open>e\<close> from -1022 (where the subnormal numbers lie) upwards. The exact result
  \<open>x\<close> of an operation is rounded on the grid of the doubles around it, whose step is
  \<open>double_ulp x\<close>; on a tie the even multiple of the step is taken. A result beyond the
  largest double stands for the infinity the hardware returns; the program only
  converts such a value to an unsigned integer, which is undefined as for every value
  from \<open>2 ^ 32\<close> on.
\<close>

definition pow2 :: "int \<Rightarrow> real" where
  "pow2 e = (if 0 \<le> e then 2 ^ nat e else 1 / 2 ^ nat (- e))"

definition round_half_even :: "real \<Rightarrow> int" where
  "round_half_even q =
     (let f = \<lfloor>q\<rfloor>; r = q - of_int f
      in if r < 1 / 2 then f else if 1 / 2 < r then f + 1 else if even f then f else f + 1)"

definition double_exponent :: "real \<Rightarrow> int" where
  "double_exponent x = max \<lfloor>log 2 \<bar>x\<bar>\<rfloor> (- 1022)"

definition double_ulp :: "real \<Rightarrow> real" where
  "double_ulp x = pow2 (double_exponent x - 52)"

definition round_to_double :: "real \<Rightarrow> real" where
  "round_to_double x =
     (if x = 0 then 0 else of_int (round_half_even (x / double_ulp x)) * double_ulp x)"

subsection \<open>Conversion of a double to an unsigned int\<close>

text \<open>
  \<open>static_cast<unsigned int>\<close> of a \<open>double\<close> discards the fractional part (truncation
  towards zero). The conversion is undefined when the truncated value does not fit
  into 32 bits.
\<close>

definition trunc_toward_zero :: "real \<Rightarrow> int" where
  "trunc_toward_zero x = (if 0 \<le> x then \<lfloor>x\<rfloor> else \<lceil>x\<rceil>)"

definition double_to_uint :: "real \<Rightarrow> nat option" where
  "double_to_uint x =
     (let t = trunc_toward_zero x
      in if 0 \<le> t \<and> t < 2 ^ 32 then Some (nat t) else None)"

definition checkRange :: "nat \<Rightarrow> bool" where
  "checkRange i = (i \<le> maxUnsignedIntWithNumBits)"

subsection \<open>od2NormGreyLevel\<close>

text \<open>
  The first statement of \<open>od2NormGreyLevel\<close>: the scaled optical density stored in
  \<open>*retVal\<close>.
\<close>

definition scaledOD :: "real \<Rightarrow> nat option" where
  "scaledOD od =
     double_to_uint
       (round_to_double (round_to_double (real maxUnsignedIntWithNumBits / maxOD) * od))"

text \<open>
  The function returns a flag and writes through the pointer \<open>retVal\<close>; the model
  returns the pair of the flag and the value left in \<open>*retVal\<close>.
\<close>

definition od2NormGreyLevel :: "real \<Rightarrow> (bool \<times> nat) option" where
  "od2NormGreyLevel od =
     (case scaledOD od of
        None \<Rightarrow> None
      | Some v \<Rightarrow>
          if v > maxUnsignedIntWithNumBits then Some (False, v)
          else
            (let v1 = maxUnsignedIntWithNumBits - v
             in case double_to_uint
                       (round_to_double
                          (round_to_double (1.0 / real maxUnsignedIntWithNumBits)
                           * round_to_double (real v1 * real v1))) of
                  None \<Rightarrow> None
                | Some v2 \<Rightarrow> Some (True, v2)))"

subsection \<open>The four calibration functions\<close>

text \<open>The optical density each calibration function hands to \<open>od2NormGreyLevel\<close>.\<close>

definition dbaOD :: "nat \<Rightarrow> real" where
  "dbaOD raw0 =
     (if 0 \<noteq> raw0 then
        (let raw1 = (if raw0 > 64064 then 64064 else raw0);
             raw2 = (if raw1 < 4 then 4 else raw1)
         in (log 10 (real raw2) - 4.80662) / (- 1.07553))
      else 0.0)"

definition dbaCalibration :: "nat \<Rightarrow> (bool \<times> nat) option" where
  "dbaCalibration raw = od2NormGreyLevel (dbaOD raw)"

definition howtekMghOD :: "nat \<Rightarrow> real" where
  "howtekMghOD raw0 =
     (let raw = (if raw0 > 4006 then 4006 else raw0)
      in 3.789 + ((- 0.00094568) * real raw))"

definition howtekMghCalibration :: "nat \<Rightarrow> (bool \<times> nat) option" where
  "howtekMghCalibration raw = od2NormGreyLevel (howtekMghOD raw)"

definition howtekIsmdOD :: "nat \<Rightarrow> real" where
  "howtekIsmdOD raw0 =
     (let raw = (if raw0 > 4003 then 4003 else raw0)
      in 3.96604096240593 + ((- 0.00099055807612) * real raw))"

definition howtekIsmdCalibration :: "nat \<Rightarrow> (bool \<times> nat) option" where
  "howtekIsmdCalibration raw = od2NormGreyLevel (howtekIsmdOD raw)"

definition lumisysOD :: "nat \<Rightarrow> real" where
  "lumisysOD raw0 =
     (let raw1 = (if raw0 < 61 then 61 else raw0);
          raw2 = (if raw1 > 4097 then 4097 else raw1)
      in (real raw2 - 4096.99) / (- 1009.01))"

definition lumisysCalibration :: "nat \<Rightarrow> (bool \<times> nat) option" where
  "lumisysCalibration raw = od2NormGreyLevel (lumisysOD raw)"

text \<open>
  The program passes the calibration function around as a function pointer and
  compares the pointer with \<open>dbaCalibration\<close>; the model names the four pointers.
\<close>

datatype digitizer = Dba | HowtekMgh | HowtekIsmd | Lumisys

fun calibrationFunc :: "digitizer \<Rightarrow> nat \<Rightarrow> (bool \<times> nat) option" where
  "calibrationFunc Dba = dbaCalibration"
| "calibrationFunc HowtekMgh = howtekMghCalibration"
| "calibrationFunc HowtekIsmd = howtekIsmdCalibration"
| "calibrationFunc Lumisys = lumisysCalibration"

subsection \<open>getPnmCommentString\<close>

text \<open>
  \<open>bitsPerPixel\<close> is an \<open>unsigned char\<close>; \<open>retVal += bitsPerPixel\<close> appends the
  character with that code to the string.
\<close>

definition getPnmCommentString :: "digitizer \<Rightarrow> string" where
  "getPnmCommentString calibFunc =
     (let bitsPerPixel = (if calibFunc = Dba then 16 else 12 :: nat)
      in ''# Generated by ddsmraw2pnm. Original data was digitized at ''
         @ [char_of bitsPerPixel]
         @ '' bits/pixel.'' @ [CHR 0x0A])"

subsection \<open>Decimal output and input\<close>

text \<open>
  \<open>fprintf\<close> with \<open>%u\<close> writes an unsigned integer in decimal; \<open>atoi\<close> reads a
  decimal integer after optional white space and an optional sign, and stops at the
  first character that is not a digit. Both belong to the C library; they are modelled
  by their documented behaviour. \<open>atoi\<close> is undefined when the value does not fit into
  an \<open>int\<close>.
\<close>

definition digit_char :: "nat \<Rightarrow> char" where
  "digit_char d = ''0123456789'' ! d"

fun dec :: "nat \<Rightarrow> string" where
  "dec n = (if n < 10 then [digit_char n] else dec (n div 10) @ [digit_char (n mod 10)])"

declare dec.simps [simp del]

definition print_u :: "int \<Rightarrow> string" where
  "print_u i = dec (nat (i mod 2 ^ 32))"

definition digit_val :: "char \<Rightarrow> nat option" where
  "digit_val c =
     map_of [(CHR ''0'', 0), (CHR ''1'', 1), (CHR ''2'', 2), (CHR ''3'', 3), (CHR ''4'', 4),
             (CHR ''5'', 5), (CHR ''6'', 6), (CHR ''7'', 7), (CHR ''8'', 8), (CHR ''9'', 9)] c"

fun read_digits :: "nat \<Rightarrow> string \<Rightarrow> nat" where
  "read_digits acc [] = acc"
| "read_digits acc (c # cs) =
     (case digit_val c of None \<Rightarrow> acc | Some d \<Rightarrow> read_digits (10 * acc + d) cs)"

definition is_space :: "char \<Rightarrow> bool" where
  "is_space c = (c \<in> set [CHR '' '', CHR 0x09, CHR 0x0A, CHR 0x0B, CHR 0x0C, CHR 0x0D])"

definition atoi :: "string \<Rightarrow> int option" where
  "atoi str =
     (let v = (case dropWhile is_space str of
                 [] \<Rightarrow> 0
               | c # cs \<Rightarrow>
                   if c = CHR ''-'' then - int (read_digits 0 cs)
                   else if c = CHR ''+'' then int (read_digits 0 cs)
                   else int (read_digits 0 (c # cs)))
      in if - (2 ^ 31) \<le> v \<and> v < 2 ^ 31 then Some v else None)"

subsection \<open>makePnmFile\<close>

text \<open>
  The input file is a sequence of bytes followed by what the read after the last byte
  meets: the end of the file, or a read error.
\<close>

datatype ending = EndOfFile | ReadFault

record stream =
  bytes :: "8 word list"
  ending :: ending

record pnm_state =
  oddByte :: bool
  thisPixel :: nat
  numPixels :: nat
  charColCounter :: int
  minPixelValue :: nat
  maxPixelValue :: nat
  thisByte :: "8 word"
  output_text :: string

text \<open>
  One pass through the body of the \<open>while\<close> loop after \<open>fread\<close> and the \<open>ferror\<close>
  test, on the byte that is in the buffer \<open>thisByte\<close>. The result is \<open>Inl\<close> with the
  returned status and the text written so far when the body returns from the
  function, and \<open>Inr\<close> with the new state otherwise.
\<close>

definition loop_body :: "digitizer \<Rightarrow> pnm_state \<Rightarrow> (int \<times> string + pnm_state) option" where
  "loop_body calib s =
     (let byteValue = unat (thisByte s)
      in if byteValue > 255 then Some (Inl (- 1, output_text s))
         else if oddByte s then
           Some (Inr (s\<lparr>thisPixel := 256 * byteValue, oddByte := \<not> oddByte s\<rparr>))
         else
           (case calibrationFunc calib (thisPixel s + byteValue) of
              None \<Rightarrow> None
            | Some (okSoFar, px) \<Rightarrow>
                if \<not> checkRange px \<or> \<not> okSoFar then Some (Inl (- 1, output_text s))
                else
                  (let out1 = output_text s @ dec px @ '' '';
                       ccc = charColCounter s + 1;
                       wrap = (ccc * 5 \<ge> 50)
                   in Some (Inr (s\<lparr>
                        thisPixel := px,
                        output_text := (if wrap then out1 @ [CHR 0x0A] else out1),
                        charColCounter := (if wrap then 0 else ccc),
                        numPixels := (numPixels s + 1) mod 2 ^ 32,
                        minPixelValue := (if px < minPixelValue s then px else minPixelValue s),
                        maxPixelValue := (if px > maxPixelValue s then px else maxPixelValue s),
                        oddByte := \<not> oddByte s\<rparr>)))))"

text \<open>
  The loop \<open>while(!feof(input))\<close>. The end-of-file indicator is set only by a read
  that finds no byte, so the body runs once more after the last byte has been read:
  that \<open>fread\<close> stores nothing and the buffer still holds the byte read before.
\<close>

fun read_loop ::
  "digitizer \<Rightarrow> 8 word list \<Rightarrow> ending \<Rightarrow> pnm_state \<Rightarrow> (int \<times> string + pnm_state) option" where
  "read_loop calib [] e s =
     (case e of
        ReadFault \<Rightarrow> Some (Inl (- 1, output_text s))
      | EndOfFile \<Rightarrow> loop_body calib s)"
| "read_loop calib (b # bs) e s =
     (case loop_body calib (s\<lparr>thisByte := b\<rparr>) of
        None \<Rightarrow> None
      | Some (Inl r) \<Rightarrow> Some (Inl r)
      | Some (Inr s') \<Rightarrow> read_loop calib bs e s')"

definition pnm_header :: "int \<Rightarrow> int \<Rightarrow> digitizer \<Rightarrow> string" where
  "pnm_header numRows numCols calib =
     ''P2'' @ [CHR 0x0A]
     @ getPnmCommentString calib
     @ print_u numCols @ [CHR 0x0A]
     @ print_u numRows @ [CHR 0x0A]
     @ dec maxUnsignedIntWithNumBits @ [CHR 0x0A]"

text \<open>
  \<open>buf0\<close> is the content of the uninitialised buffer \<open>thisByte\<close> when the function
  starts. The result is the returned status together with the text written to the
  output file.
\<close>

definition makePnmFile ::
  "stream \<Rightarrow> 8 word \<Rightarrow> int \<Rightarrow> int \<Rightarrow> digitizer \<Rightarrow> (int \<times> string) option" where
  "makePnmFile inp buf0 numRows numCols calib =
     (let s0 = \<lparr>oddByte = True, thisPixel = 0, numPixels = 0, charColCounter = 0,
                minPixelValue = maxUnsignedIntWithNumBits, maxPixelValue = 0,
                thisByte = buf0, output_text = pnm_header numRows numCols calib\<rparr>
      in case read_loop calib (bytes inp) (ending inp) s0 of
           None \<Rightarrow> None
         | Some (Inl r) \<Rightarrow> Some r
         | Some (Inr s) \<Rightarrow>
             if numRows * numCols < - (2 ^ 31) \<or> 2 ^ 31 \<le> numRows * numCols then None
             else if numPixels s = nat ((numRows * numCols) mod 2 ^ 32)
               then Some (0, output_text s)
               else Some (image_size_error, output_text s))"

subsection \<open>checkCalibrationFunctions\<close>

fun checkInputs :: "digitizer \<Rightarrow> nat list \<Rightarrow> bool option" where
  "checkInputs calib [] = Some True"
| "checkInputs calib (inVal # rest) =
     (case calibrationFunc calib inVal of
        None \<Rightarrow> None
      | Some (ok, outVal) \<Rightarrow>
          if outVal > maxUnsignedIntWithNumBits then Some False
          else checkInputs calib rest)"

fun checkDigitizers :: "digitizer list \<Rightarrow> bool option" where
  "checkDigitizers [] = Some True"
| "checkDigitizers (calib # rest) =
     (case checkInputs calib [0 ..< Suc maxUnsignedIntWithNumBits] of
        None \<Rightarrow> None
      | Some False \<Rightarrow> Some False
      | Some True \<Rightarrow> checkDigitizers rest)"

definition checkCalibrationFunctions :: "bool option" where
  "checkCalibrationFunctions = checkDigitizers [Dba, HowtekMgh, HowtekIsmd, Lumisys]"

subsection \<open>main\<close>

text \<open>
  The files the program can open: \<open>readable\<close> lists the files that can be opened for
  reading, each with its content, and \<open>writable\<close> the names that can be opened for
  writing. A run ends with an exit status, the message written to the standard error
  stream, and the output file (its name and content) when the program has created it.
  The diagnostics on the standard output stream are not modelled.
\<close>

record files =
  readable :: "(string \<times> stream) list"
  writable :: "string list"

definition fopen_rb :: "files \<Rightarrow> string \<Rightarrow> stream option" where
  "fopen_rb fs name = map_of (readable fs) name"

definition fopen_wb :: "files \<Rightarrow> string \<Rightarrow> bool" where
  "fopen_wb fs name = List.member (writable fs) name"

record run =
  exit_code :: int
  message :: string
  out_file :: "(string \<times> string) option"

definition exitWith :: "int \<Rightarrow> string \<Rightarrow> (string \<times> string) option \<Rightarrow> run" where
  "exitWith errorCode errorMsg f = \<lparr>exit_code = errorCode, message = errorMsg, out_file = f\<rparr>"

definition select_calibration :: "string \<Rightarrow> digitizer option" where
  "select_calibration digitizer =
     (if digitizer = dba then Some Dba
      else if digitizer = howtek_mgh then Some HowtekMgh
      else if digitizer = howtek_ismd then Some HowtekIsmd
      else if digitizer = lumisys then Some Lumisys
      else None)"

definition main :: "string list \<Rightarrow> files \<Rightarrow> 8 word \<Rightarrow> run option" where
  "main argv fs buf0 =
     (if length argv \<noteq> 5 then Some (exitWith syntax_error syntax_error_msg None)
      else
        (let inputFile = argv ! 1; digitizer = argv ! 4
         in case (atoi (argv ! 2), atoi (argv ! 3)) of
              (Some numRows, Some numCols) \<Rightarrow>
                (case checkCalibrationFunctions of
                   None \<Rightarrow> None
                 | Some False \<Rightarrow> Some (exitWith program_error program_error_msg None)
                 | Some True \<Rightarrow>
                     (case select_calibration digitizer of
                        None \<Rightarrow> Some (exitWith syntax_error syntax_error_msg None)
                      | Some calib \<Rightarrow>
                          (let outputFile = inputFile @ outputSuffix
                           in if numRows < 1 then
                                Some (exitWith rows_not_positive_error rows_not_positive_error_msg None)
                              else if numCols < 1 then
                                Some (exitWith cols_not_positive_error cols_not_positive_error_msg None)
                              else
                                (case (fopen_rb fs inputFile, fopen_wb fs outputFile) of
                                   (None, False) \<Rightarrow> Some (exitWith file_error file_error_msg None)
                                 | (Some inp, False) \<Rightarrow>
                                     Some (exitWith file_error file_error_msg None)
                                 | (None, True) \<Rightarrow>
                                     Some (exitWith file_error file_error_msg (Some (outputFile, [])))
                                 | (Some inp, True) \<Rightarrow>
                                     (case makePnmFile inp buf0 numRows numCols calib of
                                        None \<Rightarrow> None
                                      | Some (status, text) \<Rightarrow>
                                          if status \<noteq> 0 then
                                            Some (exitWith pnm_error pnm_error_msg
                                                    (Some (outputFile, text)))
                                          else
                                            Some (exitWith success []
                                                    (Some (outputFile, text))))))))
            | _ \<Rightarrow> None))"

section \<open>get_ddsm_groundtruth.m: annotation masks\<close>

subsection \<open>Errors and matrices\<close>

text \<open>
  The ways a MATLAB function of the file stops with an error: the two calls of
  \<open>error\<close> in \<open>make_annotation_image\<close>, a subscript that is not a positive integer
  or that reads past the end of an array, and the use of a variable that has no value.
\<close>

datatype matlab_error =
    MissingSentinel
  | BadSubscript
  | ProblemParsing
  | UndefinedVariable

text \<open>
  A matrix of numbers with its size; subscripts start at 1, and \<open>pixel\<close> is 0 outside
  the matrix.
\<close>

record image =
  nrows :: nat
  ncols :: nat
  pixel :: "nat \<Rightarrow> nat \<Rightarrow> nat"

definition zeros :: "nat \<times> nat \<Rightarrow> image" where
  "zeros image_dims = \<lparr>nrows = fst image_dims, ncols = snd image_dims, pixel = (\<lambda>r c. 0)\<rparr>"

text \<open>
  The assignment \<open>anno_image(pos(1), pos(2)) = 1\<close>: MATLAB rejects a subscript below 1
  and enlarges the matrix, filling with zeros, when a subscript lies beyond its size.
\<close>

definition assign_one :: "image \<Rightarrow> int \<times> int \<Rightarrow> image option" where
  "assign_one img pos =
     (if fst pos < 1 \<or> snd pos < 1 then None
      else Some \<lparr>nrows = max (nrows img) (nat (fst pos)),
                 ncols = max (ncols img) (nat (snd pos)),
                 pixel = (pixel img)(nat (fst pos) := (pixel img (nat (fst pos)))(nat (snd pos) := 1))\<rparr>)"

subsection \<open>Tracing the chain code\<close>

text \<open>The \<open>switch\<close> on one direction code; a code outside 0..7 leaves \<open>pos\<close> as it is.\<close>

definition move :: "int \<Rightarrow> int \<times> int \<Rightarrow> int \<times> int" where
  "move code pos =
     (if code = 0 then (fst pos - 1, snd pos)
      else if code = 1 then (fst pos - 1, snd pos + 1)
      else if code = 2 then (fst pos, snd pos + 1)
      else if code = 3 then (fst pos + 1, snd pos + 1)
      else if code = 4 then (fst pos + 1, snd pos)
      else if code = 5 then (fst pos + 1, snd pos - 1)
      else if code = 6 then (fst pos, snd pos - 1)
      else if code = 7 then (fst pos - 1, snd pos - 1)
      else pos)"

text \<open>
  The loop \<open>for i = 3:length(chain_code)\<close>. It yields the matrix as it is when the
  loop ends, and the error when a subscript was rejected.
\<close>

fun trace :: "int list \<Rightarrow> int \<times> int \<Rightarrow> image \<Rightarrow> image \<times> matlab_error option" where
  "trace [] pos img = (img, None)"
| "trace (code # rest) pos img =
     (case assign_one img (move code pos) of
        None \<Rightarrow> (img, Some BadSubscript)
      | Some img' \<Rightarrow> trace rest (move code pos) img')"

text \<open>
  The positions \<open>pos\<close> takes, in order: the start and the position after each
  direction code.
\<close>

fun visited :: "int \<times> int \<Rightarrow> int list \<Rightarrow> (int \<times> int) list" where
  "visited pos [] = [pos]"
| "visited pos (code # rest) = pos # visited (move code pos) rest"

subsection \<open>imfill\<close>

text \<open>
  \<open>imfill(anno_image, 'holes')\<close> belongs to MATLAB's Image Processing Toolbox. It is
  modelled by its documented behaviour: a hole is a set of background pixels (value 0)
  that cannot be reached from the edge of the image through background pixels,
  moving to the four direct neighbours; holes are set to 1 and the size is kept.
\<close>

definition coords :: "image \<Rightarrow> (nat \<times> nat) list" where
  "coords img = List.product [1 ..< Suc (nrows img)] [1 ..< Suc (ncols img)]"

definition background :: "image \<Rightarrow> nat \<times> nat \<Rightarrow> bool" where
  "background img p = (pixel img (fst p) (snd p) = 0)"

definition on_edge :: "image \<Rightarrow> nat \<times> nat \<Rightarrow> bool" where
  "on_edge img p = (fst p = 1 \<or> fst p = nrows img \<or> snd p = 1 \<or> snd p = ncols img)"

definition neighbours4 :: "nat \<times> nat \<Rightarrow> (nat \<times> nat) list" where
  "neighbours4 p = [(fst p - 1, snd p), (fst p + 1, snd p), (fst p, snd p - 1), (fst p, snd p + 1)]"

definition grow :: "image \<Rightarrow> (nat \<times> nat) list \<Rightarrow> (nat \<times> nat) list" where
  "grow img reached =
     filter (\<lambda>p. background img p \<and>
                 (List.member reached p \<or> list_ex (List.member reached) (neighbours4 p)))
       (coords img)"

definition reachable :: "image \<Rightarrow> (nat \<times> nat) list" where
  "reachable img =
     ((grow img) ^^ (nrows img * ncols img))
       (filter (\<lambda>p. background img p \<and> on_edge img p) (coords img))"

definition imfill_holes :: "image \<Rightarrow> image" where
  "imfill_holes img =
     img\<lparr>pixel :=
       (\<lambda>r c. if List.member (coords img) (r, c) \<and> background img (r, c)
                   \<and> \<not> List.member (reachable img) (r, c)
               then 1 else pixel img r c)\<rparr>"

subsection \<open>make_annotation_image\<close>

text \<open>
  \<open>str2num\<close> belongs to MATLAB and is a parameter of the model: it turns the text of
  the chain code into the vector of its numbers. The result has two parts: the value
  of the variable \<open>anno_image\<close> when the function stops (\<open>None\<close> when \<open>zeros\<close> has
  not been called), and the error raised or the mask returned.
\<close>

definition make_annotation_image ::
  "(string \<Rightarrow> int list) \<Rightarrow> nat \<times> nat \<Rightarrow> string \<Rightarrow> image option \<times> (matlab_error + image)" where
  "make_annotation_image str2num image_dims chain_code =
     (if chain_code = [] then (None, Inl BadSubscript)
      else if last chain_code \<noteq> CHR ''#'' then (None, Inl MissingSentinel)
      else
        (let code = str2num (butlast chain_code);
             anno_image = zeros image_dims
         in case code of
              c1 # c2 # steps \<Rightarrow>
                (case assign_one anno_image (c2, c1) of
                   None \<Rightarrow> (Some anno_image, Inl BadSubscript)
                 | Some img1 \<Rightarrow>
                     (case trace steps (c2, c1) img1 of
                        (img2, Some e) \<Rightarrow> (Some img2, Inl e)
                      | (img2, None) \<Rightarrow>
                          (let filled = imfill_holes img2
                           in if \<not> (nrows filled = fst image_dims \<and> ncols filled = snd image_dims)
                              then (Some filled, Inl ProblemParsing)
                              else (Some filled, Inr filled))))
            | _ \<Rightarrow> (Some anno_image, Inl BadSubscript)))"

text \<open>
  For the chain codes of the overlay format, numbers in decimal separated by blanks,
  \<open>str2num\<close> yields the vector of the numbers. \<open>str2num_decimal\<close> is \<open>str2num\<close> on
  such texts (and the empty vector on any other text); the examples use it.
\<close>

fun split_blank :: "string \<Rightarrow> string \<Rightarrow> string list" where
  "split_blank acc [] = (if acc = [] then [] else [acc])"
| "split_blank acc (c # cs) =
     (if c = CHR '' '' then (if acc = [] then split_blank [] cs else acc # split_blank [] cs)
      else split_blank (acc @ [c]) cs)"

definition str2num_decimal :: "string \<Rightarrow> int list" where
  "str2num_decimal txt =
     (let toks = split_blank [] txt
      in if list_all (list_all (\<lambda>c. digit_val c \<noteq> None)) toks
         then map (\<lambda>t. int (read_digits 0 t)) toks else [])"

subsection \<open>parse_boundary_and_cores\<close>

text \<open>\<open>regexp(line, 'BOUNDARY')\<close> is not empty when the line contains the word.\<close>

fun starts_with :: "string \<Rightarrow> string \<Rightarrow> bool" where
  "starts_with [] txt = True"
| "starts_with (p # ps) [] = False"
| "starts_with (p # ps) (c # cs) = (p = c \<and> starts_with ps cs)"

fun contains :: "string \<Rightarrow> string \<Rightarrow> bool" where
  "contains pat [] = (pat = [])"
| "contains pat (c # cs) = (starts_with pat (c # cs) \<or> contains pat cs)"

datatype code_kind = Boundary | Core

text \<open>
  The anonymous functions stored in \<open>.boundary\<close> and \<open>.cores\<close> capture the line
  \<open>bc_text{i}\<close> and nothing else; the model stores the captured line, and
  \<open>call_annotation\<close> is the call of such a function. \<open>boundary = None\<close> is the
  initial value \<open>''\<close>, which is not a function.
\<close>

record annotations =
  boundary :: "string option"
  cores :: "string list"

definition call_annotation ::
  "(string \<Rightarrow> int list) \<Rightarrow> string \<Rightarrow> nat \<times> nat \<Rightarrow> matlab_error + image" where
  "call_annotation str2num chain_code image_dims =
     snd (make_annotation_image str2num image_dims chain_code)"

text \<open>
  The loop over \<open>bc_text\<close>; \<open>code_is\<close> has no value until a line with \<open>BOUNDARY\<close> or
  \<open>CORE\<close> has been seen.
\<close>

fun bc_loop :: "string list \<Rightarrow> code_kind option \<Rightarrow> annotations \<Rightarrow> matlab_error + annotations" where
  "bc_loop [] code_is anns = Inr anns"
| "bc_loop (line # rest) code_is anns =
     (if contains ''BOUNDARY'' line then bc_loop rest (Some Boundary) anns
      else if contains ''CORE'' line then bc_loop rest (Some Core) anns
      else
        (case code_is of
           None \<Rightarrow> Inl UndefinedVariable
         | Some Boundary \<Rightarrow> bc_loop rest code_is (anns\<lparr>boundary := Some line\<rparr>)
         | Some Core \<Rightarrow> bc_loop rest code_is (anns\<lparr>cores := cores anns @ [line]\<rparr>)))"

definition parse_boundary_and_cores :: "string list \<Rightarrow> matlab_error + annotations" where
  "parse_boundary_and_cores bc_text = bc_loop bc_text None \<lparr>boundary = None, cores = []\<rparr>"

section \<open>Properties of the calibration functions\<close>

subsection \<open>Rounding to double precision\<close>

lemma pow2_powr: "pow2 e = 2 powr (of_int e)"
  by (simp add: pow2_def powr_int)

lemma pow2_pos [simp]: "0 < pow2 e"
  by (simp add: pow2_powr)

lemma pow2_add: "pow2 (a + b) = pow2 a * pow2 b"
  by (simp add: pow2_powr powr_add)

lemma pow2_mono: "a \<le> b \<Longrightarrow> pow2 a \<le> pow2 b"
  by (simp add: pow2_powr)

lemma pow2_nat: "0 \<le> e \<Longrightarrow> pow2 e = of_int (2 ^ nat e)"
  by (simp add: pow2_def)

lemma round_half_even_near:
  assumes "\<bar>q - of_int K\<bar> < 1 / 2"
  shows "round_half_even q = K"
proof -
  from assms have a: "q - of_int K < 1 / 2" "of_int K - q < 1 / 2" by linarith+
  then have "\<lfloor>q\<rfloor> = K \<or> \<lfloor>q\<rfloor> = K - 1" by linarith
  then show ?thesis
  proof
    assume f: "\<lfloor>q\<rfloor> = K"
    with a show ?thesis by (simp add: round_half_even_def Let_def)
  next
    assume f: "\<lfloor>q\<rfloor> = K - 1"
    with a have "1 / 2 < q - of_int \<lfloor>q\<rfloor>" by simp
    with f show ?thesis by (simp add: round_half_even_def Let_def)
  qed
qed

lemma round_half_even_error: "\<bar>of_int (round_half_even q) - q\<bar> \<le> 1 / 2"
proof -
  have "of_int \<lfloor>q\<rfloor> \<le> q" "q < of_int \<lfloor>q\<rfloor> + 1" by linarith+
  then show ?thesis by (auto simp: round_half_even_def Let_def)
qed

lemma double_ulp_pos: "0 < double_ulp x"
  by (simp add: double_ulp_def)

lemma abs_between_pow2:
  assumes "x \<noteq> 0"
  shows "pow2 \<lfloor>log 2 \<bar>x\<bar>\<rfloor> \<le> \<bar>x\<bar>" "\<bar>x\<bar> < pow2 (\<lfloor>log 2 \<bar>x\<bar>\<rfloor> + 1)"
proof -
  have pos: "0 < \<bar>x\<bar>" using assms by simp
  from floor_log_eq_powr_iff [of "\<bar>x\<bar>" 2 "\<lfloor>log 2 \<bar>x\<bar>\<rfloor>"] pos
  show "pow2 \<lfloor>log 2 \<bar>x\<bar>\<rfloor> \<le> \<bar>x\<bar>" "\<bar>x\<bar> < pow2 (\<lfloor>log 2 \<bar>x\<bar>\<rfloor> + 1)"
    by (simp_all add: pow2_powr)
qed

lemma double_ulp_lower:
  assumes "x \<noteq> 0"
  shows "\<bar>x\<bar> / 2 ^ 53 < double_ulp x"
proof -
  have "\<bar>x\<bar> < pow2 (\<lfloor>log 2 \<bar>x\<bar>\<rfloor> + 1)" by (rule abs_between_pow2 [OF assms])
  also have "\<dots> \<le> pow2 (double_exponent x + 1)"
    by (intro pow2_mono) (simp add: double_exponent_def)
  also have "double_exponent x + 1 = (double_exponent x - 52) + 53" by simp
  also have "pow2 \<dots> = double_ulp x * 2 ^ 53"
    unfolding pow2_add by (simp add: double_ulp_def pow2_def)
  finally show ?thesis by (simp add: field_simps)
qed

lemma double_ulp_upper:
  assumes "x \<noteq> 0"
  shows "double_ulp x \<le> \<bar>x\<bar> / 2 ^ 52 + pow2 (- 1074)"
proof (cases "- 1022 \<le> \<lfloor>log 2 \<bar>x\<bar>\<rfloor>")
  case True
  then have e: "double_exponent x = \<lfloor>log 2 \<bar>x\<bar>\<rfloor>" by (simp add: double_exponent_def)
  have "\<lfloor>log 2 \<bar>x\<bar>\<rfloor> = (\<lfloor>log 2 \<bar>x\<bar>\<rfloor> - 52) + 52" by simp
  then have "pow2 \<lfloor>log 2 \<bar>x\<bar>\<rfloor> = pow2 (\<lfloor>log 2 \<bar>x\<bar>\<rfloor> - 52) * pow2 52"
    by (metis pow2_add)
  then have "pow2 \<lfloor>log 2 \<bar>x\<bar>\<rfloor> = double_ulp x * 2 ^ 52"
    by (simp add: double_ulp_def e pow2_def [of 52])
  with abs_between_pow2(1) [OF assms] have "double_ulp x * 2 ^ 52 \<le> \<bar>x\<bar>" by simp
  then have "double_ulp x \<le> \<bar>x\<bar> / 2 ^ 52" by (simp add: field_simps)
  moreover have "0 < pow2 (- 1074)" by simp
  ultimately show ?thesis by linarith
next
  case False
  then have "double_exponent x = - 1022" by (simp add: double_exponent_def)
  then have "double_ulp x = pow2 (- 1074)" by (simp add: double_ulp_def)
  then show ?thesis by simp
qed

lemma round_to_double_error:
  "\<bar>round_to_double x - x\<bar> \<le> \<bar>x\<bar> / 2 ^ 53 + pow2 (- 1075)"
proof (cases "x = 0")
  case True
  then show ?thesis by (simp add: round_to_double_def less_imp_le)
next
  case False
  let ?u = "double_ulp x"
  have u: "0 < ?u" by (rule double_ulp_pos)
  have "round_to_double x - x = (of_int (round_half_even (x / ?u)) - x / ?u) * ?u"
    using False u by (simp add: round_to_double_def field_simps)
  then have "\<bar>round_to_double x - x\<bar> = \<bar>of_int (round_half_even (x / ?u)) - x / ?u\<bar> * ?u"
    using u by (simp add: abs_mult)
  also have "\<dots> \<le> (1 / 2) * ?u"
    using round_half_even_error [of "x / ?u"] u by (intro mult_right_mono) simp_all
  also have "\<dots> \<le> (1 / 2) * (\<bar>x\<bar> / 2 ^ 52 + pow2 (- 1074))"
    using double_ulp_upper [OF False] by simp
  also have "\<dots> = \<bar>x\<bar> / 2 ^ 53 + pow2 (- 1075)"
  proof -
    have "pow2 (- 1074) = pow2 (- 1075 + 1)" by simp
    also have "\<dots> = pow2 (- 1075) * 2" unfolding pow2_add by (simp add: pow2_def [of 1])
    finally show ?thesis by simp
  qed
  finally show ?thesis .
qed

lemma round_to_double_is_double:
  "\<exists>M j. \<bar>M\<bar> \<le> 2 ^ 53 \<and> - 1074 \<le> j \<and> round_to_double x = of_int M * pow2 j"
proof (cases "x = 0")
  case True
  have "\<bar>0::int\<bar> \<le> 2 ^ 53 \<and> - 1074 \<le> (0::int) \<and> round_to_double x = of_int 0 * pow2 0"
    using True by (simp add: round_to_double_def)
  then show ?thesis by blast
next
  case False
  define u where "u = double_ulp x"
  define M where "M = round_half_even (x / u)"
  have u: "0 < u" by (simp add: u_def double_ulp_pos)
  have "\<bar>x\<bar> / 2 ^ 53 < u" unfolding u_def by (rule double_ulp_lower [OF False])
  then have "\<bar>x\<bar> < u * 2 ^ 53" by (simp add: field_simps)
  then have "\<bar>x\<bar> / u < 2 ^ 53" using u by (simp add: field_simps)
  then have q: "\<bar>x / u\<bar> < 2 ^ 53" using u by simp
  have "\<bar>(of_int M :: real)\<bar> \<le> \<bar>x / u\<bar> + 1 / 2"
    using round_half_even_error [of "x / u"] unfolding M_def by linarith
  with q have "\<bar>(of_int M :: real)\<bar> < 2 ^ 53 + 1" by linarith
  then have "(of_int \<bar>M\<bar> :: real) < of_int (2 ^ 53 + 1)" by simp
  then have "\<bar>M\<bar> < 2 ^ 53 + 1" by (rule of_int_less_iff [THEN iffD1])
  then have M: "\<bar>M\<bar> \<le> 2 ^ 53" by simp
  have j: "- 1074 \<le> double_exponent x - 52" by (simp add: double_exponent_def)
  have "round_to_double x = of_int M * pow2 (double_exponent x - 52)"
    using False by (simp add: round_to_double_def M_def u_def double_ulp_def)
  with M j show ?thesis by blast
qed

lemma round_to_double_snap:
  assumes d: "d = of_int M * pow2 j" and M: "\<bar>M\<bar> < 2 ^ 53" and j: "- 1074 \<le> j"
    and near: "\<bar>x - d\<bar> < \<bar>x\<bar> / 2 ^ 54"
  shows "round_to_double x = d"
proof -
  have x0: "x \<noteq> 0" using near by auto
  define e where "e = double_exponent x"
  define u where "u = double_ulp x"
  have u: "0 < u" "u = pow2 (e - 52)" by (simp_all add: u_def e_def double_ulp_def)
  have Mle: "\<bar>of_int M :: real\<bar> \<le> 2 ^ 53 - 1"
  proof -
    from M have "\<bar>M\<bar> \<le> 2 ^ 53 - 1" by simp
    then have "(of_int \<bar>M\<bar> :: real) \<le> of_int (2 ^ 53 - 1)" by (rule of_int_le_iff [THEN iffD2])
    then show ?thesis by simp
  qed
  have dle: "\<bar>d\<bar> \<le> (2 ^ 53 - 1) * pow2 j"
  proof -
    have "\<bar>pow2 j\<bar> = pow2 j" by (simp add: abs_of_pos)
    then show ?thesis unfolding d abs_mult using Mle by (simp add: mult_right_mono)
  qed
  have xlt: "\<bar>x\<bar> < pow2 (j + 53)"
  proof -
    have "\<bar>x\<bar> \<le> \<bar>d\<bar> + \<bar>x - d\<bar>" by linarith
    with near dle have "\<bar>x\<bar> < (2 ^ 53 - 1) * pow2 j + \<bar>x\<bar> / 2 ^ 54" by linarith
    moreover have "0 < pow2 j" by simp
    ultimately have "\<bar>x\<bar> < 2 ^ 53 * pow2 j" by (simp add: field_simps)
    then show ?thesis unfolding pow2_add by (simp add: pow2_def [of 53] mult.commute)
  qed
  have ele: "e \<le> j + 52"
  proof -
    have "\<lfloor>log 2 \<bar>x\<bar>\<rfloor> \<le> j + 52"
    proof (rule ccontr)
      assume "\<not> \<lfloor>log 2 \<bar>x\<bar>\<rfloor> \<le> j + 52"
      then have "j + 53 \<le> \<lfloor>log 2 \<bar>x\<bar>\<rfloor>" by simp
      then have "pow2 (j + 53) \<le> pow2 \<lfloor>log 2 \<bar>x\<bar>\<rfloor>" by (rule pow2_mono)
      with abs_between_pow2(1) [OF x0] xlt show False by linarith
    qed
    with j show ?thesis by (simp add: e_def double_exponent_def)
  qed
  define k where "k = j - e + 52"
  have k: "0 \<le> k" using ele by (simp add: k_def)
  define K where "K = M * 2 ^ nat k"
  have "pow2 j = pow2 (k + (e - 52))" by (simp add: k_def)
  also have "\<dots> = of_int (2 ^ nat k) * u" unfolding pow2_add u(2) using pow2_nat [OF k] by simp
  finally have dK: "d = of_int K * u" by (simp add: d K_def)
  have half: "\<bar>x\<bar> / 2 ^ 54 < u / 2"
    using double_ulp_lower [OF x0] by (simp add: u_def)
  have "x / u - of_int K = (x - d) / u" using u(1) by (simp add: dK field_simps)
  then have "\<bar>x / u - of_int K\<bar> = \<bar>x - d\<bar> / u" using u(1) by simp
  also have "\<dots> < (u / 2) / u" using near half u(1) by (intro divide_strict_right_mono) linarith+
  also have "\<dots> = 1 / 2" using u(1) by simp
  finally have "round_half_even (x / u) = K" by (rule round_half_even_near)
  then show ?thesis using x0 by (simp add: round_to_double_def dK flip: u_def)
qed

lemma round_to_double_exact:
  assumes "d = of_int M * pow2 j" and "\<bar>M\<bar> < 2 ^ 53" and "- 1074 \<le> j"
  shows "round_to_double d = d"
proof (cases "d = 0")
  case True
  then show ?thesis by (simp add: round_to_double_def)
next
  case False
  then have "\<bar>d - d\<bar> < \<bar>d\<bar> / 2 ^ 54" by simp
  from round_to_double_snap [OF assms this] show ?thesis .
qed

lemma round_to_double_nat:
  assumes "n < 2 ^ 53"
  shows "round_to_double (real n) = real n"
proof -
  have "real n = of_int (int n) * pow2 0" by (simp add: pow2_def)
  moreover have "\<bar>int n\<bar> < 2 ^ 53" using assms by simp
  ultimately show ?thesis by (rule round_to_double_exact) simp
qed

lemma pow2_tiny: "pow2 (- 1075) \<le> 1 / 2 ^ 21"
proof -
  have "pow2 (- 1075) \<le> pow2 (- 21)" by (rule pow2_mono) simp
  then show ?thesis by (simp add: pow2_def)
qed

lemma round_to_double_close:
  assumes "\<bar>p\<bar> \<le> 2 ^ 32"
  shows "p - 1 / 1048576 \<le> round_to_double p" "round_to_double p \<le> p + 1 / 1048576"
proof -
  have "\<bar>p\<bar> / 2 ^ 53 \<le> 2 ^ 32 / 2 ^ 53" using assms by (simp add: divide_right_mono)
  then have a: "\<bar>p\<bar> / 2 ^ 53 \<le> 1 / 2097152" by simp
  have b: "pow2 (- 1075) \<le> 1 / 2097152" using pow2_tiny by simp
  note c = round_to_double_error [of p]
  from a b c show "p - 1 / 1048576 \<le> round_to_double p" by linarith
  from a b c show "round_to_double p \<le> p + 1 / 1048576" by linarith
qed

lemma floor_round_to_double:
  assumes "of_int n + 1 / 524288 \<le> p" and "p \<le> of_int n + 1 - 1 / 524288"
    and "0 \<le> n" and "n < 2 ^ 32"
  shows "\<lfloor>round_to_double p\<rfloor> = n"
proof -
  have "(of_int n :: real) < 2 ^ 32" using assms(4) by (metis of_int_less_numeral_power_cancel_iff)
  moreover have "(0::real) \<le> of_int n" using assms(3) by simp
  ultimately have "\<bar>p\<bar> \<le> 2 ^ 32" using assms(1,2) by simp
  from round_to_double_close [OF this] assms(1,2)
  have "of_int n \<le> round_to_double p" "round_to_double p < of_int n + 1" by linarith+
  then show ?thesis by (intro floor_unique) simp_all
qed

subsection \<open>Truncation and companding\<close>

lemma trunc_toward_zero_bounds:
  assumes "- 1 < x" "x < 65536"
  shows "0 \<le> trunc_toward_zero x" "trunc_toward_zero x \<le> 65535"
proof -
  show "0 \<le> trunc_toward_zero x"
  proof (cases "0 \<le> x")
    case True then show ?thesis by (simp add: trunc_toward_zero_def)
  next
    case False
    with assms have "\<lceil>x\<rceil> = 0" by (intro ceiling_unique) auto
    with False show ?thesis by (simp add: trunc_toward_zero_def)
  qed
  show "trunc_toward_zero x \<le> 65535"
  proof (cases "0 \<le> x")
    case True
    have "\<lfloor>x\<rfloor> < 65536" using assms by (simp add: floor_less_iff)
    with True show ?thesis by (simp add: trunc_toward_zero_def)
  next
    case False
    then have "\<lceil>x\<rceil> \<le> 0" by (simp add: ceiling_le_iff)
    with False show ?thesis by (simp add: trunc_toward_zero_def)
  qed
qed

lemma scale_factor: "round_to_double (real maxUnsignedIntWithNumBits / maxOD) = 65535 / 4"
proof -
  have "(65535 / 4 :: real) = of_int 65535 * pow2 (- 2)" by (simp add: pow2_def)
  then have "round_to_double (65535 / 4) = 65535 / 4"
    by (rule round_to_double_exact) simp_all
  then show ?thesis by (simp add: maxUnsignedIntWithNumBits_def maxOD_def)
qed

lemma compand_factor:
  "round_to_double (1.0 / real maxUnsignedIntWithNumBits) = 4503668347895824 / 2 ^ 68"
proof -
  have d: "(4503668347895824 / 2 ^ 68 :: real) = of_int 4503668347895824 * pow2 (- 68)"
    by (simp add: pow2_def)
  have "round_to_double (1 / 65535) = 4503668347895824 / 2 ^ 68"
    by (rule round_to_double_snap [OF d]) simp_all
  then show ?thesis by (simp add: maxUnsignedIntWithNumBits_def)
qed

lemma compand_le:
  assumes "v1 \<le> 65535"
  shows "v1 * v1 div 65535 \<le> (65535::nat)"
proof -
  have "v1 * v1 \<le> 65535 * 65535" using assms assms by (rule mult_le_mono)
  then have "v1 * v1 div 65535 \<le> 65535 * 65535 div (65535::nat)" by (rule div_le_mono)
  then show ?thesis by simp
qed

lemma compand_round:
  assumes "v1 \<le> 65535"
  shows "\<lfloor>round_to_double (4503668347895824 / 2 ^ 68 * real (v1 * v1))\<rfloor>
           = int (v1 * v1 div 65535)"
proof -
  define Q where "Q = v1 * v1 div 65535"
  define r where "r = v1 * v1 mod 65535"
  define P :: real where "P = 4503668347895824 / 2 ^ 68 * real (v1 * v1)"
  have Q: "Q \<le> 65535" unfolding Q_def by (rule compand_le [OF assms])
  have r: "r < 65535" unfolding r_def by simp
  have "v1 * v1 = 65535 * Q + r" by (simp add: Q_def r_def)
  then have sq: "real (v1 * v1) = 65535 * real Q + real r"
    by (metis of_nat_add of_nat_mult of_nat_numeral)
  have Qr: "real Q \<le> 65535" "0 \<le> real Q" using Q by simp_all
  have P0: "P = 4503668347895824 / 2 ^ 68 * (65535 * real Q + real r)"
    unfolding P_def sq by (rule refl)
  have "\<lfloor>round_to_double P\<rfloor> = int Q"
  proof (cases "r = 0")
    case True
    then have P: "P = real Q - real Q / 2 ^ 64" by (simp add: P0)
    show ?thesis
    proof (cases "Q = 0")
      case True
      with P have "P = 0" by simp
      then show ?thesis using True by (simp add: round_to_double_def)
    next
      case False
      then have "1 \<le> real Q" by simp
      have d: "real Q = of_int (int Q) * pow2 0" by (simp add: pow2_def)
      have "\<bar>int Q\<bar> < 2 ^ 53" using Q by simp
      moreover have "\<bar>P - real Q\<bar> < \<bar>P\<bar> / 2 ^ 54"
        using \<open>1 \<le> real Q\<close> unfolding P by (simp add: abs_if field_simps)
      ultimately have "round_to_double P = real Q"
        by (intro round_to_double_snap [OF d]) simp_all
      then show ?thesis by simp
    qed
  next
    case False
    then have "1 \<le> real r" by simp
    have "real r \<le> 65534" using r by simp
    have P: "P = real Q + (4503668347895824 * real r - 16 * real Q) / 2 ^ 68"
      by (simp add: P0 field_simps)
    have lo: "real Q + 1 / 524288 \<le> P"
      unfolding P using \<open>1 \<le> real r\<close> Qr by (simp add: field_simps)
    have hi: "P \<le> real Q + 1 - 1 / 524288"
      unfolding P using \<open>real r \<le> 65534\<close> Qr by (simp add: field_simps)
    show ?thesis
      using lo hi Q by (intro floor_round_to_double) simp_all
  qed
  then show ?thesis unfolding P_def Q_def .
qed

lemma compand_value:
  assumes "v1 \<le> 65535"
  shows "double_to_uint
           (round_to_double
              (round_to_double (1.0 / real maxUnsignedIntWithNumBits)
               * round_to_double (real v1 * real v1)))
           = Some (v1 * v1 div 65535)"
proof -
  define n where "n = v1 * v1 div 65535"
  have n: "n \<le> 65535" unfolding n_def by (rule compand_le [OF assms])
  have "v1 * v1 \<le> 65535 * 65535" using assms assms by (rule mult_le_mono)
  then have "v1 * v1 < 2 ^ 53" by simp
  then have sq: "round_to_double (real v1 * real v1) = real (v1 * v1)"
    using round_to_double_nat [of "v1 * v1"] by simp
  define F where "F = round_to_double (4503668347895824 / 2 ^ 68 * real (v1 * v1))"
  have fl: "\<lfloor>F\<rfloor> = int n" unfolding F_def n_def by (rule compand_round [OF assms])
  then have "0 \<le> F" by (metis floor_less_zero linorder_not_less of_nat_0_le_iff)
  with fl have tr: "trunc_toward_zero F = int n" by (simp add: trunc_toward_zero_def)
  have "int n < 2 ^ 32" using n by simp
  then show ?thesis
    unfolding compand_factor sq F_def [symmetric] double_to_uint_def tr Let_def n_def [symmetric]
    by simp
qed

lemma od2NormGreyLevel_value:
  assumes s: "scaledOD od = Some v" and v: "v \<le> 65535"
  shows "od2NormGreyLevel od = Some (True, (65535 - v) * (65535 - v) div 65535)"
proof -
  have le: "\<not> v > maxUnsignedIntWithNumBits"
    using v by (simp add: maxUnsignedIntWithNumBits_def)
  have v1: "maxUnsignedIntWithNumBits - v \<le> 65535"
    by (simp add: maxUnsignedIntWithNumBits_def)
  note cv = compand_value [OF v1]
  have "od2NormGreyLevel od
          = Some (True, (maxUnsignedIntWithNumBits - v) * (maxUnsignedIntWithNumBits - v) div 65535)"
    by (simp only: od2NormGreyLevel_def s option.case le if_False Let_def cv)
  then show ?thesis by (simp add: maxUnsignedIntWithNumBits_def)
qed

lemma od2NormGreyLevel_fail:
  assumes "scaledOD od = Some v" and "v > 65535"
  shows "od2NormGreyLevel od = Some (False, v)"
  using assms by (simp add: od2NormGreyLevel_def maxUnsignedIntWithNumBits_def)

lemma scaledOD_unfold:
  "scaledOD od = double_to_uint (round_to_double ((65535 / 4) * od))"
  by (simp only: scaledOD_def scale_factor)

lemma scaledOD_value:
  assumes "- 1 < round_to_double ((65535 / 4) * od)"
    and "round_to_double ((65535 / 4) * od) < 2 ^ 32"
  shows "scaledOD od
           = Some (if round_to_double ((65535 / 4) * od) < 0 then 0
                   else nat \<lfloor>round_to_double ((65535 / 4) * od)\<rfloor>)"
proof -
  define F where "F = round_to_double ((65535 / 4) * od)"
  have a: "- 1 < F" "F < 2 ^ 32" using assms by (simp_all add: F_def)
  have "double_to_uint F = Some (if F < 0 then 0 else nat \<lfloor>F\<rfloor>)"
  proof (cases "F < 0")
    case True
    with a have "\<lceil>F\<rceil> = 0" by (intro ceiling_unique) auto
    with True show ?thesis
      by (simp add: double_to_uint_def trunc_toward_zero_def Let_def)
  next
    case False
    then have nn: "0 \<le> F" by simp
    then have f0: "0 \<le> \<lfloor>F\<rfloor>" by simp
    have "\<lfloor>F\<rfloor> < 2 ^ 32" using a(2) by (simp add: floor_less_iff)
    with False nn f0 show ?thesis
      by (simp add: double_to_uint_def trunc_toward_zero_def Let_def)
  qed
  then show ?thesis unfolding scaledOD_unfold F_def .
qed

lemma scaledOD_floor:
  assumes "of_int n + 1 / 524288 \<le> (65535 / 4) * od"
    and "(65535 / 4) * od \<le> of_int n + 1 - 1 / 524288"
    and "0 \<le> n" and "n < 2 ^ 32"
  shows "scaledOD od = Some (nat n)"
proof -
  have fl: "\<lfloor>round_to_double ((65535 / 4) * od)\<rfloor> = n"
    by (rule floor_round_to_double [OF assms])
  then have "of_int n \<le> round_to_double ((65535 / 4) * od)"
    "round_to_double ((65535 / 4) * od) < of_int n + 1" by linarith+
  moreover have "(of_int n :: real) + 1 \<le> 2 ^ 32"
    using assms(4) by (metis of_int_1 of_int_add of_int_le_numeral_power_cancel_iff zle_add1_eq_le zless_imp_add1_zle add.commute)
  moreover have "(0::real) \<le> of_int n" using assms(3) by simp
  ultimately have "- 1 < round_to_double ((65535 / 4) * od)"
    "round_to_double ((65535 / 4) * od) < 2 ^ 32"
    "\<not> round_to_double ((65535 / 4) * od) < 0" by linarith+
  with scaledOD_value [of od] fl show ?thesis by simp
qed

lemma od2NormGreyLevel_in_range:
  assumes "- 99 / 100 \<le> (65535 / 4) * od" "(65535 / 4) * od \<le> 65535 + 9 / 10"
  shows "\<exists>v. od2NormGreyLevel od = Some (True, v) \<and> v \<le> 65535"
proof -
  define F where "F = round_to_double ((65535 / 4) * od)"
  have "\<bar>(65535 / 4) * od\<bar> \<le> 2 ^ 32" using assms by simp
  from round_to_double_close [OF this] assms
  have F: "- 1 < F" "F < 65536" unfolding F_def by linarith+
  define t where "t = trunc_toward_zero F"
  have t: "0 \<le> t" "t \<le> 65535"
    unfolding t_def using trunc_toward_zero_bounds [OF F] by simp_all
  have s: "scaledOD od = Some (nat t)"
    using t by (simp add: scaledOD_unfold double_to_uint_def t_def F_def Let_def)
  have v: "nat t \<le> 65535" using t by simp
  have "65535 - nat t \<le> (65535::nat)" by simp
  from compand_le [OF this] od2NormGreyLevel_value [OF s v] show ?thesis by blast
qed

lemma howtekMgh_ok: "\<exists>v. howtekMghCalibration raw = Some (True, v) \<and> v \<le> 65535"
proof -
  define r where "r = (if raw > 4006 then 4006 else raw)"
  have r: "real r \<le> 4006" "0 \<le> real r" by (simp_all add: r_def)
  have od: "howtekMghOD raw = 3.789 + ((- 0.00094568) * real r)"
    by (simp add: howtekMghOD_def r_def Let_def)
  show ?thesis unfolding howtekMghCalibration_def od
    by (rule od2NormGreyLevel_in_range) (use r in simp_all)
qed

lemma howtekIsmd_ok: "\<exists>v. howtekIsmdCalibration raw = Some (True, v) \<and> v \<le> 65535"
proof -
  define r where "r = (if raw > 4003 then 4003 else raw)"
  have r: "real r \<le> 4003" "0 \<le> real r" by (simp_all add: r_def)
  have od: "howtekIsmdOD raw = 3.96604096240593 + ((- 0.00099055807612) * real r)"
    by (simp add: howtekIsmdOD_def r_def Let_def)
  show ?thesis unfolding howtekIsmdCalibration_def od
    by (rule od2NormGreyLevel_in_range) (use r in simp_all)
qed

lemma lumisys_ok: "\<exists>v. lumisysCalibration raw = Some (True, v) \<and> v \<le> 65535"
proof -
  define r where "r = (let raw1 = (if raw < 61 then 61 else raw) in if raw1 > 4097 then 4097 else raw1)"
  have r: "real r \<le> 4097" "61 \<le> real r" by (simp_all add: r_def Let_def)
  have od: "lumisysOD raw = (real r - 4096.99) / (- 1009.01)"
    by (simp add: lumisysOD_def r_def Let_def)
  show ?thesis unfolding lumisysCalibration_def od
    by (rule od2NormGreyLevel_in_range) (use r in \<open>simp_all add: field_simps\<close>)
qed

lemma log10_upper:
  fixes x :: real
  assumes "0 < x" "0 < k" "x ^ k \<le> 10 ^ m"
  shows "log 10 x \<le> real m / real k"
proof -
  have "real k * log 10 x = log 10 (x ^ k)" using assms(1) by (simp add: log_nat_power)
  also have "\<dots> \<le> log 10 (10 ^ m)"
    by (subst log_le_cancel_iff) (use assms in simp_all)
  also have "\<dots> = real m" by (simp add: log_nat_power)
  finally show ?thesis using assms(2) by (simp add: field_simps)
qed

lemma log10_lower:
  fixes x :: real
  assumes "0 < x" "0 < k" "10 ^ m \<le> x ^ k"
  shows "real m / real k \<le> log 10 x"
proof -
  have "real m = log 10 (10 ^ m)" by (simp add: log_nat_power)
  also have "\<dots> \<le> log 10 (x ^ k)"
    by (subst log_le_cancel_iff) (use assms in simp_all)
  also have "\<dots> = real k * log 10 x" using assms(1) by (simp add: log_nat_power)
  finally show ?thesis using assms(2) by (simp add: field_simps)
qed

lemma pow_upper_step:
  fixes x :: real
  assumes "x ^ a \<le> A * 10 ^ ea" "x ^ b \<le> B * 10 ^ eb"
    and "0 \<le> x" "0 \<le> A" "0 \<le> B" "A * B \<le> C * 10 ^ d"
    and "n = a + b" "e = ea + eb + d"
  shows "x ^ n \<le> C * 10 ^ e"
proof -
  have "x ^ n = x ^ a * x ^ b" using assms(7) by (simp add: power_add)
  also have "\<dots> \<le> (A * 10 ^ ea) * (B * 10 ^ eb)"
    using assms(1,2,3,4) by (intro mult_mono) simp_all
  also have "\<dots> = (A * B) * 10 ^ (ea + eb)" by (simp add: power_add)
  also have "\<dots> \<le> (C * 10 ^ d) * 10 ^ (ea + eb)"
    using assms(6) by (intro mult_right_mono) simp_all
  also have "\<dots> = C * 10 ^ e" using assms(8) by (simp add: power_add)
  finally show ?thesis .
qed

lemma pow_lower_step:
  fixes x :: real
  assumes "A * 10 ^ ea \<le> x ^ a" "B * 10 ^ eb \<le> x ^ b"
    and "0 \<le> x" "0 \<le> A" "0 \<le> B" "C * 10 ^ d \<le> A * B"
    and "n = a + b" "e = ea + eb + d"
  shows "C * 10 ^ e \<le> x ^ n"
proof -
  have "C * 10 ^ e = (C * 10 ^ d) * 10 ^ (ea + eb)" using assms(8) by (simp add: power_add)
  also have "\<dots> \<le> (A * B) * 10 ^ (ea + eb)"
    using assms(6) by (intro mult_right_mono) simp_all
  also have "\<dots> = (A * 10 ^ ea) * (B * 10 ^ eb)" by (simp add: power_add)
  also have "\<dots> \<le> x ^ a * x ^ b"
    using assms(1,2,3,4,5) by (intro mult_mono) simp_all
  also have "\<dots> = x ^ n" using assms(7) by (simp add: power_add)
  finally show ?thesis .
qed

lemma pow_64064_393: "(64064::real) ^ 393 \<le> 1 * 10 ^ 1889"
proof -
  have p1: "(64064::real) ^ 1 \<le> 64064 * 10 ^ 0" by simp
  have p2: "(64064::real) ^ 2 \<le> 4104196096 * 10 ^ 0"
    by (rule pow_upper_step [where d = 0, OF p1 p1]) simp_all
  have p3: "(64064::real) ^ 3 \<le> 262931218695 * 10 ^ 3"
    by (rule pow_upper_step [where d = 3, OF p2 p1]) simp_all
  have p6: "(64064::real) ^ 6 \<le> 691328257645 * 10 ^ 17"
    by (rule pow_upper_step [where d = 11, OF p3 p3]) simp_all
  have p12: "(64064::real) ^ 12 \<le> 477934759819 * 10 ^ 46"
    by (rule pow_upper_step [where d = 12, OF p6 p6]) simp_all
  have p24: "(64064::real) ^ 24 \<le> 228421634644 * 10 ^ 104"
    by (rule pow_upper_step [where d = 12, OF p12 p12]) simp_all
  have p48: "(64064::real) ^ 48 \<le> 521764431735 * 10 ^ 219"
    by (rule pow_upper_step [where d = 11, OF p24 p24]) simp_all
  have p49: "(64064::real) ^ 49 \<le> 334263165547 * 10 ^ 224"
    by (rule pow_upper_step [where d = 5, OF p48 p1]) simp_all
  have p98: "(64064::real) ^ 98 \<le> 111731863842 * 10 ^ 460"
    by (rule pow_upper_step [where d = 12, OF p49 p49]) simp_all
  have p196: "(64064::real) ^ 196 \<le> 124840093977 * 10 ^ 931"
    by (rule pow_upper_step [where d = 11, OF p98 p98]) simp_all
  have p392: "(64064::real) ^ 392 \<le> 155850490642 * 10 ^ 1873"
    by (rule pow_upper_step [where d = 11, OF p196 p196]) simp_all
  have p393: "(64064::real) ^ 393 \<le> 1 * 10 ^ 1889"
    by (rule pow_upper_step [where d = 16, OF p392 p1]) simp_all
  show ?thesis by (rule p393)
qed

lemma pow_4_191: "(4::real) ^ 191 \<le> 1 * 10 ^ 115"
proof -
  have p1: "(4::real) ^ 1 \<le> 4 * 10 ^ 0" by simp
  have p2: "(4::real) ^ 2 \<le> 16 * 10 ^ 0"
    by (rule pow_upper_step [where d = 0, OF p1 p1]) simp_all
  have p4: "(4::real) ^ 4 \<le> 256 * 10 ^ 0"
    by (rule pow_upper_step [where d = 0, OF p2 p2]) simp_all
  have p5: "(4::real) ^ 5 \<le> 1024 * 10 ^ 0"
    by (rule pow_upper_step [where d = 0, OF p4 p1]) simp_all
  have p10: "(4::real) ^ 10 \<le> 1048576 * 10 ^ 0"
    by (rule pow_upper_step [where d = 0, OF p5 p5]) simp_all
  have p11: "(4::real) ^ 11 \<le> 4194304 * 10 ^ 0"
    by (rule pow_upper_step [where d = 0, OF p10 p1]) simp_all
  have p22: "(4::real) ^ 22 \<le> 175921860445 * 10 ^ 2"
    by (rule pow_upper_step [where d = 2, OF p11 p11]) simp_all
  have p23: "(4::real) ^ 23 \<le> 703687441780 * 10 ^ 2"
    by (rule pow_upper_step [where d = 0, OF p22 p1]) simp_all
  have p46: "(4::real) ^ 46 \<le> 495176015719 * 10 ^ 16"
    by (rule pow_upper_step [where d = 12, OF p23 p23]) simp_all
  have p47: "(4::real) ^ 47 \<le> 198070406288 * 10 ^ 17"
    by (rule pow_upper_step [where d = 1, OF p46 p1]) simp_all
  have p94: "(4::real) ^ 94 \<le> 392318858471 * 10 ^ 45"
    by (rule pow_upper_step [where d = 11, OF p47 p47]) simp_all
  have p95: "(4::real) ^ 95 \<le> 156927543389 * 10 ^ 46"
    by (rule pow_upper_step [where d = 1, OF p94 p1]) simp_all
  have p190: "(4::real) ^ 190 \<le> 246262538742 * 10 ^ 103"
    by (rule pow_upper_step [where d = 11, OF p95 p95]) simp_all
  have p191: "(4::real) ^ 191 \<le> 1 * 10 ^ 115"
    by (rule pow_upper_step [where d = 12, OF p190 p1]) simp_all
  show ?thesis by (rule p191)
qed

lemma pow_4_583: "1 * 10 ^ 351 \<le> (4::real) ^ 583"
proof -
  have p1: "4 * 10 ^ 0 \<le> (4::real) ^ 1" by simp
  have p2: "16 * 10 ^ 0 \<le> (4::real) ^ 2"
    by (rule pow_lower_step [where d = 0, OF p1 p1]) simp_all
  have p4: "256 * 10 ^ 0 \<le> (4::real) ^ 4"
    by (rule pow_lower_step [where d = 0, OF p2 p2]) simp_all
  have p8: "65536 * 10 ^ 0 \<le> (4::real) ^ 8"
    by (rule pow_lower_step [where d = 0, OF p4 p4]) simp_all
  have p9: "262144 * 10 ^ 0 \<le> (4::real) ^ 9"
    by (rule pow_lower_step [where d = 0, OF p8 p1]) simp_all
  have p18: "68719476736 * 10 ^ 0 \<le> (4::real) ^ 18"
    by (rule pow_lower_step [where d = 0, OF p9 p9]) simp_all
  have p36: "472236648286 * 10 ^ 10 \<le> (4::real) ^ 36"
    by (rule pow_lower_step [where d = 10, OF p18 p18]) simp_all
  have p72: "223007451984 * 10 ^ 32 \<le> (4::real) ^ 72"
    by (rule pow_lower_step [where d = 12, OF p36 p36]) simp_all
  have p144: "497323236403 * 10 ^ 75 \<le> (4::real) ^ 144"
    by (rule pow_lower_step [where d = 11, OF p72 p72]) simp_all
  have p145: "198929294561 * 10 ^ 76 \<le> (4::real) ^ 145"
    by (rule pow_lower_step [where d = 1, OF p144 p1]) simp_all
  have p290: "395728642345 * 10 ^ 163 \<le> (4::real) ^ 290"
    by (rule pow_lower_step [where d = 11, OF p145 p145]) simp_all
  have p291: "158291456938 * 10 ^ 164 \<le> (4::real) ^ 291"
    by (rule pow_lower_step [where d = 1, OF p290 p1]) simp_all
  have p582: "250561853395 * 10 ^ 339 \<le> (4::real) ^ 582"
    by (rule pow_lower_step [where d = 11, OF p291 p291]) simp_all
  have p583: "1 * 10 ^ 351 \<le> (4::real) ^ 583"
    by (rule pow_lower_step [where d = 12, OF p582 p1]) simp_all
  show ?thesis by (rule p583)
qed

lemma log10_4_ge: "3 / 5 \<le> log 10 (4::real)"
  using log10_lower [of 4 5 3] by simp

lemma log10_64064_le: "log 10 (64064::real) \<le> 1889 / 393"
proof -
  have "(64064::real) ^ 393 \<le> 10 ^ 1889"
    using pow_64064_393 by (simp only: mult_1)
  from log10_upper [OF _ _ this] show ?thesis by simp
qed

lemma dbaOD_clamped:
  assumes "raw \<noteq> 0"
  shows "\<exists>L. 3 / 5 \<le> L \<and> L \<le> 1889 / 393 \<and> dbaOD raw = (L - 4.80662) / (- 1.07553)"
proof -
  define r where "r = (let raw1 = (if raw > 64064 then 64064 else raw) in if raw1 < 4 then 4 else raw1)"
  have r: "4 \<le> real r" "real r \<le> 64064" by (simp_all add: r_def Let_def)
  define L where "L = log 10 (real r)"
  have "log 10 4 \<le> L" unfolding L_def using r by simp
  with log10_4_ge have lo: "3 / 5 \<le> L" by linarith
  have "L \<le> log 10 64064" unfolding L_def using r by simp
  with log10_64064_le have hi: "L \<le> 1889 / 393" by linarith
  have "dbaOD raw = (L - 4.80662) / (- 1.07553)"
    using assms by (simp add: dbaOD_def r_def L_def Let_def)
  with lo hi show ?thesis by blast
qed

lemma dbaOD_pos:
  assumes "raw \<noteq> 0"
  shows "0 < dbaOD raw"
proof -
  from dbaOD_clamped [OF assms] obtain L
    where "L \<le> 1889 / 393" and od: "dbaOD raw = (L - 4.80662) / (- 1.07553)" by blast
  then show ?thesis unfolding od by (simp add: field_simps)
qed

lemma dbaOD_bounds:
  "- 99 / 100 \<le> (65535 / 4) * dbaOD raw \<and> (65535 / 4) * dbaOD raw \<le> 65535 + 9 / 10"
proof (cases "raw = 0")
  case True
  then show ?thesis by (simp add: dbaOD_def)
next
  case False
  from dbaOD_clamped [OF False] obtain L
    where "3 / 5 \<le> L" "L \<le> 1889 / 393" and od: "dbaOD raw = (L - 4.80662) / (- 1.07553)"
    by blast
  then show ?thesis unfolding od by (simp add: field_simps)
qed

lemma dba_ok: "\<exists>v. dbaCalibration raw = Some (True, v) \<and> v \<le> 65535"
  unfolding dbaCalibration_def
  using dbaOD_bounds [of raw] by (intro od2NormGreyLevel_in_range) simp_all

lemma calibrationFunc_ok: "\<exists>v. calibrationFunc d raw = Some (True, v) \<and> v \<le> 65535"
  by (cases d) (simp_all add: dba_ok howtekMgh_ok howtekIsmd_ok lumisys_ok)

lemma od2NormGreyLevel_True_le:
  assumes "od2NormGreyLevel od = Some (True, w)"
  shows "w \<le> 65535"
proof (cases "scaledOD od")
  case None
  with assms show ?thesis by (simp add: od2NormGreyLevel_def)
next
  case (Some v)
  show ?thesis
  proof (cases "v \<le> 65535")
    case True
    have "65535 - v \<le> (65535::nat)" by simp
    from compand_le [OF this] od2NormGreyLevel_value [OF Some True] assms
    show ?thesis by simp
  next
    case False
    with Some assms show ?thesis
      by (simp add: od2NormGreyLevel_def maxUnsignedIntWithNumBits_def)
  qed
qed

lemma scaledOD_zero: "scaledOD 0 = Some 0"
  by (simp add: scaledOD_unfold round_to_double_def double_to_uint_def trunc_toward_zero_def)

lemma od2NormGreyLevel_zero: "od2NormGreyLevel 0 = Some (True, 65535)"
  using od2NormGreyLevel_value [OF scaledOD_zero] by simp

lemma checkInputs_ok: "checkInputs calib xs = Some True"
proof (induction xs)
  case Nil
  show ?case by simp
next
  case (Cons inVal rest)
  from calibrationFunc_ok [of calib inVal]
  obtain v where "calibrationFunc calib inVal = Some (True, v)" "v \<le> 65535" by blast
  with Cons show ?case by (simp add: maxUnsignedIntWithNumBits_def)
qed

lemma checkCalibrationFunctions_ok: "checkCalibrationFunctions = Some True"
  by (simp add: checkCalibrationFunctions_def checkInputs_ok)

text \<open>
  C1: for each of the four digitizers and every raw sample from 0 to 65535 the
  calibration function followed by the normaliser succeeds with a grey level of at
  most 65535 (which \<open>checkRange\<close> accepts); whenever \<open>od2NormGreyLevel\<close> passes
  its range test, the inverted and companded value is at most 65535; and the
  self-check of the program over all these samples finds no fault.
\<close>

theorem calibration_range_safe:
  "(raw \<le> 65535 \<longrightarrow>
      (\<exists>v. calibrationFunc d raw = Some (True, v) \<and> v \<le> 65535 \<and> checkRange v))
   \<and> (od2NormGreyLevel od = Some (True, w) \<longrightarrow> w \<le> 65535)
   \<and> checkCalibrationFunctions = Some True"
proof (intro conjI impI)
  show "checkCalibrationFunctions = Some True" by (rule checkCalibrationFunctions_ok)
next
  from calibrationFunc_ok [of d raw]
  show "\<exists>v. calibrationFunc d raw = Some (True, v) \<and> v \<le> 65535 \<and> checkRange v"
    by (auto simp: checkRange_def maxUnsignedIntWithNumBits_def)
next
  assume "od2NormGreyLevel od = Some (True, w)"
  then show "w \<le> 65535" by (rule od2NormGreyLevel_True_le)
qed

theorem calibration_range_safe_witness:
  "(1000::nat) \<le> 65535
   \<and> (\<exists>v. calibrationFunc HowtekMgh 1000 = Some (True, v) \<and> v \<le> 65535 \<and> checkRange v)
   \<and> od2NormGreyLevel 0 = Some (True, 65535) \<and> (65535::nat) \<le> 65535
   \<and> checkCalibrationFunctions = Some True"
  using calibration_range_safe [of 1000 HowtekMgh 0 65535]
  by (simp add: od2NormGreyLevel_zero)

subsection \<open>The first step of the normaliser\<close>

lemma product_1_4096: "round_to_double ((65535 / 4) * (1 / 4096)) = 65535 / 16384"
proof -
  have "(65535 / 16384 :: real) = of_int 65535 * pow2 (- 14)" by (simp add: pow2_def)
  then have "round_to_double (65535 / 16384) = 65535 / 16384"
    by (rule round_to_double_exact) simp_all
  then show ?thesis by simp
qed

lemma product_5: "round_to_double ((65535 / 4) * 5) = 327675 / 4"
proof -
  have "(327675 / 4 :: real) = of_int 327675 * pow2 (- 2)" by (simp add: pow2_def)
  then have "round_to_double (327675 / 4) = 327675 / 4"
    by (rule round_to_double_exact) simp_all
  then show ?thesis by simp
qed

text \<open>
  The double nearest to \<open>4 / 65535\<close> is \<open>4503668347895824 / 2 ^ 66\<close>. Its exact product
  with \<open>65535 / 4\<close> is \<open>1 - 1 / 2 ^ 64\<close>, which is not a double: the product the
  program computes is 1.
\<close>

lemma product_near_one:
  "round_to_double ((65535 / 4) * (4503668347895824 / 2 ^ 66)) = 1"
proof -
  have d: "(1::real) = of_int 1 * pow2 0" by (simp add: pow2_def)
  show ?thesis by (rule round_to_double_snap [OF d]) simp_all
qed

text \<open>
  C3 (as the program has it): the first step of \<open>od2NormGreyLevel\<close> multiplies
  \<open>65535 / 4\<close> and \<open>od\<close> in double precision, so that the product \<open>F\<close> is the exact
  product rounded to the nearest double (a number \<open>M * 2 ^ j\<close> with \<open>M\<close> of at most 53
  bits, within half a step of the exact product), and truncates \<open>F\<close> towards zero,
  where the conversion is defined (\<open>-1 < F < 2 ^ 32\<close>). The function reports failure
  exactly when the truncated value exceeds 65535, and otherwise returns the inverted
  and companded value.
\<close>

theorem od2NormGreyLevel_step1:
  assumes "- 1 < round_to_double ((65535 / 4) * od)"
    and "round_to_double ((65535 / 4) * od) < 2 ^ 32"
  shows "\<exists>v. scaledOD od = Some v
             \<and> v = (if round_to_double ((65535 / 4) * od) < 0 then 0
                    else nat \<lfloor>round_to_double ((65535 / 4) * od)\<rfloor>)
             \<and> od2NormGreyLevel od
                 = (if v > 65535 then Some (False, v)
                    else Some (True, (65535 - v) * (65535 - v) div 65535))
             \<and> \<bar>round_to_double ((65535 / 4) * od) - (65535 / 4) * od\<bar>
                 \<le> \<bar>(65535 / 4) * od\<bar> / 2 ^ 53 + pow2 (- 1075)
             \<and> (\<exists>M j. \<bar>M\<bar> \<le> 2 ^ 53 \<and> - 1074 \<le> j
                       \<and> round_to_double ((65535 / 4) * od) = of_int M * pow2 j)"
proof -
  define v where "v = (if round_to_double ((65535 / 4) * od) < 0 then 0
                       else nat \<lfloor>round_to_double ((65535 / 4) * od)\<rfloor>)"
  have s: "scaledOD od = Some v"
    unfolding v_def by (rule scaledOD_value [OF assms])
  have "od2NormGreyLevel od
          = (if v > 65535 then Some (False, v)
             else Some (True, (65535 - v) * (65535 - v) div 65535))"
  proof (cases "v > 65535")
    case True
    with od2NormGreyLevel_fail [OF s] show ?thesis by simp
  next
    case False
    then have "v \<le> 65535" by simp
    from od2NormGreyLevel_value [OF s this] False show ?thesis by simp
  qed
  with s v_def round_to_double_error [of "(65535 / 4) * od"]
    round_to_double_is_double [of "(65535 / 4) * od"]
  show ?thesis by blast
qed

theorem od2NormGreyLevel_step1_witness:
  "- 1 < round_to_double ((65535 / 4) * (1 / 4096))
   \<and> round_to_double ((65535 / 4) * (1 / 4096)) < 2 ^ 32
   \<and> round_to_double ((65535 / 4) * (1 / 4096)) = 65535 / 16384
   \<and> scaledOD (1 / 4096) = Some 3
   \<and> od2NormGreyLevel (1 / 4096) = Some (True, 65529)
   \<and> - 1 < round_to_double ((65535 / 4) * 5)
   \<and> round_to_double ((65535 / 4) * 5) < 2 ^ 32
   \<and> round_to_double ((65535 / 4) * 5) = 327675 / 4
   \<and> od2NormGreyLevel 5 = Some (False, 81918)
   \<and> - 1 < round_to_double ((65535 / 4) * (4503668347895824 / 2 ^ 66))
   \<and> round_to_double ((65535 / 4) * (4503668347895824 / 2 ^ 66)) < 2 ^ 32
   \<and> round_to_double ((65535 / 4) * (4503668347895824 / 2 ^ 66)) = 1
   \<and> \<lfloor>(65535 / 4) * (4503668347895824 / 2 ^ 66 :: real)\<rfloor> = 0
   \<and> scaledOD (4503668347895824 / 2 ^ 66) = Some 1
   \<and> od2NormGreyLevel (4503668347895824 / 2 ^ 66) = Some (True, 65533)"
proof -
  have a: "- 1 < round_to_double ((65535 / 4) * (1 / 4096))"
    "round_to_double ((65535 / 4) * (1 / 4096)) < 2 ^ 32"
    unfolding product_1_4096 by simp_all
  have b: "- 1 < round_to_double ((65535 / 4) * 5)"
    "round_to_double ((65535 / 4) * 5) < 2 ^ 32"
    unfolding product_5 by simp_all
  have c: "- 1 < round_to_double ((65535 / 4) * (4503668347895824 / 2 ^ 66))"
    "round_to_double ((65535 / 4) * (4503668347895824 / 2 ^ 66)) < 2 ^ 32"
    unfolding product_near_one by simp_all
  have f: "\<lfloor>65535 / 16384 :: real\<rfloor> = 3" "\<lfloor>327675 / 4 :: real\<rfloor> = 81918" by simp_all
  have g: "\<lfloor>(65535 / 4) * (4503668347895824 / 2 ^ 66 :: real)\<rfloor> = 0" by simp
  from od2NormGreyLevel_step1 [OF a] have
    "scaledOD (1 / 4096) = Some 3 \<and> od2NormGreyLevel (1 / 4096) = Some (True, 65529)"
    unfolding product_1_4096 f by auto
  moreover from od2NormGreyLevel_step1 [OF b] have
    "od2NormGreyLevel 5 = Some (False, 81918)"
    unfolding product_5 f by auto
  moreover from od2NormGreyLevel_step1 [OF c] have
    "scaledOD (4503668347895824 / 2 ^ 66) = Some 1
     \<and> od2NormGreyLevel (4503668347895824 / 2 ^ 66) = Some (True, 65533)"
    unfolding product_near_one by auto
  ultimately show ?thesis using a b c g product_1_4096 product_5 product_near_one by blast
qed

text \<open>
  C3 (as stated) asks for rounding to the nearest integer. For \<open>od = 1 / 4096\<close> the
  product is 3.99993..., exactly, in double precision: the program stores 3, rounding
  gives 4.
\<close>

theorem scaledOD_round_counterexample:
  "scaledOD (1 / 4096) = Some 3 \<and> round ((65535 / 4) * (1 / 4096 :: real)) = 4"
proof
  have "scaledOD (1 / 4096) = Some (nat 3)"
    by (rule scaledOD_floor) simp_all
  then show "scaledOD (1 / 4096) = Some 3" by simp
  show "round ((65535 / 4) * (1 / 4096 :: real)) = 4" by (simp add: round_def)
qed

subsection \<open>The lowest samples of digitizer A\<close>

lemma log10_4_bounds: "351 / 583 \<le> log 10 (4::real)" "log 10 (4::real) \<le> 115 / 191"
proof -
  have "(10::real) ^ 351 \<le> 4 ^ 583" using pow_4_583 by (simp only: mult_1)
  from log10_lower [OF _ _ this] show "351 / 583 \<le> log 10 (4::real)" by simp
  have "(4::real) ^ 191 \<le> 10 ^ 115" using pow_4_191 by (simp only: mult_1)
  from log10_upper [OF _ _ this] show "log 10 (4::real) \<le> 115 / 191" by simp
qed

lemma dbaOD_4: "dbaOD 4 = (log 10 4 - 4.80662) / (- 1.07553)"
  by (simp add: dbaOD_def)

lemma dbaOD_4_bounds: "3909 / 1000 < dbaOD 4" "dbaOD 4 < 3910 / 1000"
  unfolding dbaOD_4 using log10_4_bounds by (simp_all add: field_simps)

lemma dbaOD_4_scaled:
  "64048 + 1 / 524288 \<le> (65535 / 4) * dbaOD 4" "(65535 / 4) * dbaOD 4 \<le> 64048 + 1 - 1 / 524288"
  unfolding dbaOD_4 using log10_4_bounds by (simp_all add: field_simps)

lemma dbaCalibration_4: "dbaCalibration 4 = Some (True, 33)"
proof -
  have "scaledOD (dbaOD 4) = Some (nat 64048)"
    by (rule scaledOD_floor) (use dbaOD_4_scaled in simp_all)
  then have "scaledOD (dbaOD 4) = Some 64048" by simp
  from od2NormGreyLevel_value [OF this] show ?thesis by (simp add: dbaCalibration_def)
qed

text \<open>
  C4 (as the program has it): with digitizer A the raw sample 4 is not clamped to
  optical density 0. It is the lower clamping bound: the samples 1, 2 and 3 are
  raised to it, its optical density is \<open>(log10 4 - 4.80662) / (- 1.07553)\<close>, between
  3.909 and 3.910, and its grey level is 33. The optical density is 0 for the raw
  sample 0 and for no other raw sample, and the grey level of the raw sample 0 is 65535.
\<close>

theorem dbaCalibration_low_samples:
  "dbaOD 4 = (log 10 4 - 4.80662) / (- 1.07553)
   \<and> 3909 / 1000 < dbaOD 4 \<and> dbaOD 4 < 3910 / 1000
   \<and> dbaCalibration 4 = Some (True, 33)
   \<and> dbaOD 1 = dbaOD 4 \<and> dbaOD 2 = dbaOD 4 \<and> dbaOD 3 = dbaOD 4
   \<and> (dbaOD raw = 0 \<longleftrightarrow> raw = 0)
   \<and> dbaCalibration 0 = Some (True, 65535)"
proof -
  have a: "dbaOD 0 = 0" by (simp add: dbaOD_def)
  have b: "dbaCalibration 0 = Some (True, 65535)"
    by (simp add: dbaCalibration_def a od2NormGreyLevel_zero)
  have c: "dbaOD 1 = dbaOD 4" "dbaOD 2 = dbaOD 4" "dbaOD 3 = dbaOD 4"
    by (simp_all add: dbaOD_def)
  have d: "dbaOD raw = 0 \<longleftrightarrow> raw = 0"
  proof
    assume "dbaOD raw = 0"
    with dbaOD_pos [of raw] show "raw = 0" by auto
  next
    assume "raw = 0"
    with a show "dbaOD raw = 0" by simp
  qed
  from b c d dbaOD_4 dbaOD_4_bounds dbaCalibration_4 show ?thesis by (intro conjI)
qed

text \<open>
  C4 (as stated) says that the raw sample 4 has optical density 0 and grey level 65535.
\<close>

theorem dbaCalibration_4_counterexample:
  "dbaOD 4 \<noteq> 0 \<and> dbaCalibration 4 \<noteq> Some (True, 65535)"
proof
  show "dbaOD 4 \<noteq> 0" using dbaOD_4_bounds(1) by simp
  show "dbaCalibration 4 \<noteq> Some (True, 65535)" by (simp add: dbaCalibration_4)
qed

subsection \<open>The comment line\<close>

lemma char_of_16: "char_of (16::nat) = CHR 0x10"
  by code_simp

lemma char_of_12: "char_of (12::nat) = CHR 0x0C"
  by code_simp

text \<open>
  C5: the comment line should carry the bit depth in decimal, "16" for the dba
  digitizer and "12" for the others. The program appends the character with code 16
  or 12 instead (a control character), so the comment line holds neither "16" nor "12".
\<close>

theorem getPnmCommentString_dba:
  "getPnmCommentString Dba
     = ''# Generated by ddsmraw2pnm. Original data was digitized at '' @ [CHR 0x10]
       @ '' bits/pixel.'' @ [CHR 0x0A]
   \<and> \<not> contains ''16'' (getPnmCommentString Dba)
   \<and> getPnmCommentString Lumisys
     = ''# Generated by ddsmraw2pnm. Original data was digitized at '' @ [CHR 0x0C]
       @ '' bits/pixel.'' @ [CHR 0x0A]
   \<and> getPnmCommentString HowtekMgh = getPnmCommentString Lumisys
   \<and> getPnmCommentString HowtekIsmd = getPnmCommentString Lumisys
   \<and> \<not> contains ''12'' (getPnmCommentString Lumisys)"
  by (simp add: getPnmCommentString_def char_of_16 char_of_12)

subsection \<open>Reading the input file\<close>

lemma howtekMgh_4626: "howtekMghCalibration 4626 = Some (True, 65517)"
proof -
  have "scaledOD (howtekMghOD 4626) = Some (nat 9)"
    by (rule scaledOD_floor) (simp_all add: howtekMghOD_def)
  then have "scaledOD (howtekMghOD 4626) = Some 9" by simp
  from od2NormGreyLevel_value [OF this] show ?thesis by (simp add: howtekMghCalibration_def)
qed

lemma dec_65517: "dec 65517 = ''65517''"
  by (simp add: dec.simps digit_char_def)

text \<open>
  C2: a file of one byte is not a 1 x 1 image of 16-bit samples, and the conversion
  should fail with the size error. The loop runs its body once more after the last
  byte, on the byte still in the buffer, so the single byte 0x12 is read as the sample
  0x1212: one pixel is written and the function returns 0, as it does for the
  complete file of the two bytes 0x12 0x12.
\<close>

theorem makePnmFile_one_byte:
  "makePnmFile \<lparr>bytes = [0x12], ending = EndOfFile\<rparr> buf0 1 1 HowtekMgh
     = Some (0, pnm_header 1 1 HowtekMgh @ ''65517 '')
   \<and> makePnmFile \<lparr>bytes = [0x12, 0x12], ending = EndOfFile\<rparr> buf0 1 1 HowtekMgh
     = Some (0, pnm_header 1 1 HowtekMgh @ ''65517 '')"
  by (simp add: makePnmFile_def loop_body_def Let_def howtekMgh_4626 dec_65517 checkRange_def
      maxUnsignedIntWithNumBits_def)

subsection \<open>The reading loop\<close>

lemma loop_body_odd:
  assumes "oddByte s"
  shows "loop_body calib s
           = Some (Inr (s\<lparr>thisPixel := 256 * unat (thisByte s), oddByte := False\<rparr>))"
proof -
  have "unat (thisByte s) < 2 ^ LENGTH(8)" by (rule unsigned_less)
  then have "\<not> unat (thisByte s) > 255" by simp
  then show ?thesis using assms by (simp add: loop_body_def Let_def)
qed

lemma loop_body_even:
  assumes "\<not> oddByte s"
  shows "\<exists>s'. loop_body calib s = Some (Inr s') \<and> oddByte s'
              \<and> numPixels s' = (numPixels s + 1) mod 2 ^ 32"
proof -
  have "unat (thisByte s) < 2 ^ LENGTH(8)" by (rule unsigned_less)
  then have b: "\<not> unat (thisByte s) > 255" by simp
  from calibrationFunc_ok [of calib "thisPixel s + unat (thisByte s)"]
  obtain v where v: "calibrationFunc calib (thisPixel s + unat (thisByte s)) = Some (True, v)"
    "v \<le> 65535" by blast
  then have "checkRange v" by (simp add: checkRange_def maxUnsignedIntWithNumBits_def)
  with b v assms show ?thesis by (simp add: loop_body_def Let_def)
qed

lemma loop_body_total:
  "\<exists>s'. loop_body calib s = Some (Inr s') \<and> oddByte s' = (\<not> oddByte s)
        \<and> numPixels s' = (if oddByte s then numPixels s else (numPixels s + 1) mod 2 ^ 32)"
proof (cases "oddByte s")
  case True
  from loop_body_odd [OF True, of calib] True show ?thesis by simp
next
  case False
  from loop_body_even [OF False, of calib] False show ?thesis by auto
qed

lemma read_loop_fault:
  "\<exists>out. read_loop calib bs ReadFault s = Some (Inl (- 1, out))"
proof (induction bs arbitrary: s)
  case Nil
  show ?case by simp
next
  case (Cons b bs)
  from loop_body_total [of calib "s\<lparr>thisByte := b\<rparr>"]
  obtain s' where "loop_body calib (s\<lparr>thisByte := b\<rparr>) = Some (Inr s')" by blast
  with Cons [of s'] show ?case by simp
qed

lemma makePnmFile_read_fault:
  assumes "ending inp = ReadFault"
  shows "\<exists>out. makePnmFile inp buf0 numRows numCols calib = Some (- 1, out)"
proof -
  define s0 where "s0 = \<lparr>oddByte = True, thisPixel = 0, numPixels = 0, charColCounter = 0,
                minPixelValue = maxUnsignedIntWithNumBits, maxPixelValue = 0,
                thisByte = buf0, output_text = pnm_header numRows numCols calib\<rparr>"
  from read_loop_fault [of calib "bytes inp" s0]
  obtain out where "read_loop calib (bytes inp) ReadFault s0 = Some (Inl (- 1, out))" by blast
  then show ?thesis using assms by (simp add: makePnmFile_def s0_def)
qed

lemma read_loop_eof:
  assumes "numPixels s < 2 ^ 32"
  shows "\<exists>s'. read_loop calib bs EndOfFile s = Some (Inr s')
        \<and> numPixels s'
            = (numPixels s + (length bs + (if oddByte s then 1 else 2)) div 2) mod 2 ^ 32"
  using assms
proof (induction bs arbitrary: s)
  case Nil
  from loop_body_total [of calib s] Nil show ?case by auto
next
  case (Cons b bs)
  from loop_body_total [of calib "s\<lparr>thisByte := b\<rparr>"]
  obtain s1 where s1: "loop_body calib (s\<lparr>thisByte := b\<rparr>) = Some (Inr s1)"
    "oddByte s1 = (\<not> oddByte s)"
    "numPixels s1 = (if oddByte s then numPixels s else (numPixels s + 1) mod 2 ^ 32)"
    by auto
  have "numPixels s1 < 2 ^ 32" using s1(3) Cons.prems by simp
  from Cons.IH [OF this] obtain s' where s': "read_loop calib bs EndOfFile s1 = Some (Inr s')"
    "numPixels s'
       = (numPixels s1 + (length bs + (if oddByte s1 then 1 else 2)) div 2) mod 2 ^ 32"
    by blast
  have "read_loop calib (b # bs) EndOfFile s = Some (Inr s')" using s1 s' by simp
  moreover have "numPixels s'
       = (numPixels s + (length (b # bs) + (if oddByte s then 1 else 2)) div 2) mod 2 ^ 32"
  proof (cases "oddByte s")
    case True
    with s1 s' show ?thesis by simp
  next
    case False
    with s1 s' have "numPixels s'
        = ((numPixels s + 1) mod 2 ^ 32 + (length bs + 1) div 2) mod 2 ^ 32" by simp
    also have "\<dots> = (numPixels s + 1 + (length bs + 1) div 2) mod 2 ^ 32"
      by (simp add: mod_simps)
    also have "numPixels s + 1 + (length bs + 1) div 2
                 = numPixels s + (length (b # bs) + 2) div 2"
      by simp
    finally show ?thesis using False by (simp only: if_False)
  qed
  ultimately show ?case by blast
qed

text \<open>
  When the input is read to its end, the status depends only on the number of bytes:
  a file of \<open>n\<close> bytes counts \<open>(n + 1) div 2\<close> pixels.
\<close>

lemma makePnmFile_eof:
  assumes "ending inp = EndOfFile" and "0 \<le> numRows * numCols" and "numRows * numCols < 2 ^ 31"
  shows "\<exists>out. makePnmFile inp buf0 numRows numCols calib
           = Some (if ((length (bytes inp) + 1) div 2) mod 2 ^ 32 = nat (numRows * numCols)
                   then 0 else image_size_error, out)"
proof -
  define s0 where "s0 = \<lparr>oddByte = True, thisPixel = 0, numPixels = 0, charColCounter = 0,
                minPixelValue = maxUnsignedIntWithNumBits, maxPixelValue = 0,
                thisByte = buf0, output_text = pnm_header numRows numCols calib\<rparr>"
  have "numPixels s0 < 2 ^ 32" by (simp add: s0_def)
  from read_loop_eof [OF this, of calib "bytes inp"]
  obtain s' where s': "read_loop calib (bytes inp) EndOfFile s0 = Some (Inr s')"
    "numPixels s' = ((length (bytes inp) + 1) div 2) mod 2 ^ 32"
    by (auto simp: s0_def)
  have m: "(numRows * numCols) mod 2 ^ 32 = numRows * numCols"
    using assms(2,3) by simp
  show ?thesis
    using assms s' unfolding makePnmFile_def s0_def [symmetric] Let_def m
    by (simp add: m)
qed

subsection \<open>The exit status\<close>

lemma atoi_1: "atoi ''1'' = Some 1"
  by (simp add: atoi_def is_space_def digit_val_def)

lemma select_howtek_mgh: "select_calibration ''howtek-mgh'' = Some HowtekMgh"
  by (simp add: select_calibration_def dba_def howtek_mgh_def)

lemma makePnmFile_empty:
  "makePnmFile \<lparr>bytes = [], ending = EndOfFile\<rparr> 0 1 1 HowtekMgh
     = Some (image_size_error, pnm_header 1 1 HowtekMgh)"
  by (simp add: makePnmFile_def loop_body_def Let_def image_size_error_def)

lemma makePnmFile_fault:
  "makePnmFile \<lparr>bytes = [], ending = ReadFault\<rparr> 0 1 1 HowtekMgh
     = Some (- 1, pnm_header 1 1 HowtekMgh)"
  by (simp add: makePnmFile_def)

lemma main_empty_file:
  "main [''ddsmraw2pnm'', ''f'', ''1'', ''1'', ''howtek-mgh'']
        \<lparr>readable = [(''f'', \<lparr>bytes = [], ending = EndOfFile\<rparr>)],
         writable = [''f-ddsmraw2pnm.pnm'']\<rparr> 0
     = Some \<lparr>exit_code = pnm_error, message = pnm_error_msg,
             out_file = Some (''f-ddsmraw2pnm.pnm'', pnm_header 1 1 HowtekMgh)\<rparr>"
  by (simp add: main_def Let_def atoi_1 select_howtek_mgh checkCalibrationFunctions_ok
      fopen_rb_def fopen_wb_def outputSuffix_def makePnmFile_empty exitWith_def
      image_size_error_def)

lemma main_read_fault:
  "main [''ddsmraw2pnm'', ''f'', ''1'', ''1'', ''howtek-mgh'']
        \<lparr>readable = [(''f'', \<lparr>bytes = [], ending = ReadFault\<rparr>)],
         writable = [''f-ddsmraw2pnm.pnm'']\<rparr> 0
     = Some \<lparr>exit_code = pnm_error, message = pnm_error_msg,
             out_file = Some (''f-ddsmraw2pnm.pnm'', pnm_header 1 1 HowtekMgh)\<rparr>"
  by (simp add: main_def Let_def atoi_1 select_howtek_mgh checkCalibrationFunctions_ok
      fopen_rb_def fopen_wb_def outputSuffix_def makePnmFile_fault exitWith_def)

text \<open>
  C9: a wrong number of samples should end the program with a status of its own,
  different from the status of a read failure and from the status "could not create
  the PNM file". For an empty input file and a 1 x 1 image \<open>makePnmFile\<close> returns
  \<open>image_size_error\<close>, and for a read failure it returns -1; \<open>main\<close> replaces both by
  \<open>pnm_error\<close>, so the two runs end with the same status and message.
\<close>

theorem main_drops_image_size_error:
  "makePnmFile \<lparr>bytes = [], ending = EndOfFile\<rparr> 0 1 1 HowtekMgh
     = Some (image_size_error, pnm_header 1 1 HowtekMgh)
   \<and> makePnmFile \<lparr>bytes = [], ending = ReadFault\<rparr> 0 1 1 HowtekMgh
     = Some (- 1, pnm_header 1 1 HowtekMgh)
   \<and> main [''ddsmraw2pnm'', ''f'', ''1'', ''1'', ''howtek-mgh'']
        \<lparr>readable = [(''f'', \<lparr>bytes = [], ending = EndOfFile\<rparr>)],
         writable = [''f-ddsmraw2pnm.pnm'']\<rparr> 0
     = Some \<lparr>exit_code = pnm_error, message = pnm_error_msg,
             out_file = Some (''f-ddsmraw2pnm.pnm'', pnm_header 1 1 HowtekMgh)\<rparr>
   \<and> main [''ddsmraw2pnm'', ''f'', ''1'', ''1'', ''howtek-mgh'']
        \<lparr>readable = [(''f'', \<lparr>bytes = [], ending = ReadFault\<rparr>)],
         writable = [''f-ddsmraw2pnm.pnm'']\<rparr> 0
     = Some \<lparr>exit_code = pnm_error, message = pnm_error_msg,
             out_file = Some (''f-ddsmraw2pnm.pnm'', pnm_header 1 1 HowtekMgh)\<rparr>
   \<and> pnm_error \<noteq> image_size_error"
  by (simp add: makePnmFile_empty makePnmFile_fault main_empty_file main_read_fault
      pnm_error_def image_size_error_def)

section \<open>Properties of the annotation masks\<close>

subsection \<open>Assignments, the trace and the fill\<close>

lemma imfill_holes_size [simp]:
  "nrows (imfill_holes img) = nrows img" "ncols (imfill_holes img) = ncols img"
  by (simp_all add: imfill_holes_def)

lemma imfill_holes_keeps:
  "pixel img r c = 1 \<Longrightarrow> pixel (imfill_holes img) r c = 1"
  by (simp add: imfill_holes_def)

lemma assign_one_None: "assign_one img pos = None \<longleftrightarrow> fst pos < 1 \<or> snd pos < 1"
  by (simp add: assign_one_def)

lemma assign_one_Some:
  assumes "assign_one img pos = Some img'"
  shows "1 \<le> fst pos" "1 \<le> snd pos"
    and "nrows img' = max (nrows img) (nat (fst pos))"
    and "ncols img' = max (ncols img) (nat (snd pos))"
    and "pixel img' (nat (fst pos)) (nat (snd pos)) = 1"
    and "\<And>r c. pixel img r c = 1 \<Longrightarrow> pixel img' r c = 1"
  using assms by (auto simp: assign_one_def split: if_splits)

lemma trace_keeps:
  "pixel img r c = 1 \<Longrightarrow> pixel (fst (trace steps pos img)) r c = 1"
proof (induction steps arbitrary: pos img)
  case Nil
  then show ?case by simp
next
  case (Cons code rest)
  show ?case
  proof (cases "assign_one img (move code pos)")
    case None
    with Cons.prems show ?thesis by simp
  next
    case (Some img')
    from assign_one_Some(6) [OF Some Cons.prems] have "pixel img' r c = 1" .
    from Cons.IH [OF this] Some show ?thesis by simp
  qed
qed

lemma visited_split: "visited q rest = q # tl (visited q rest)"
  by (cases rest) simp_all

lemma list_all_visited:
  "list_all P (visited q rest) \<longleftrightarrow> P q \<and> list_all P (tl (visited q rest))"
  by (subst visited_split) simp

lemma list_ex_visited:
  "list_ex P (visited q rest) \<longleftrightarrow> P q \<or> list_ex P (tl (visited q rest))"
  by (subst visited_split) simp

lemma trace_error:
  "snd (trace steps pos img) = (if list_ex (\<lambda>p. fst p < 1 \<or> snd p < 1) (tl (visited pos steps)) then Some BadSubscript else None)"
proof (induction steps arbitrary: pos img)
  case Nil
  show ?case by simp
next
  case (Cons code rest)
  show ?case
  proof (cases "assign_one img (move code pos)")
    case None
    then have "fst (move code pos) < 1 \<or> snd (move code pos) < 1" by (simp add: assign_one_None)
    with None show ?thesis by (simp add: list_ex_visited)
  next
    case (Some img')
    from assign_one_Some(1,2) [OF Some]
    have "\<not> (fst (move code pos) < 1 \<or> snd (move code pos) < 1)" by simp
    with Some Cons.IH [of "move code pos" img'] show ?thesis by (simp add: list_ex_visited)
  qed
qed

lemma trace_size:
  assumes "snd (trace steps pos img) = None"
  shows "nrows (fst (trace steps pos img)) \<le> R
           \<longleftrightarrow> nrows img \<le> R \<and> list_all (\<lambda>p. fst p \<le> int R) (tl (visited pos steps))"
    and "ncols (fst (trace steps pos img)) \<le> C
           \<longleftrightarrow> ncols img \<le> C \<and> list_all (\<lambda>p. snd p \<le> int C) (tl (visited pos steps))"
  using assms
proof (induction steps arbitrary: pos img)
  case Nil
  { case 1 show ?case by simp }
  { case 2 show ?case by simp }
next
  case (Cons code rest)
  { case 1
    then obtain img' where s: "assign_one img (move code pos) = Some img'"
      by (cases "assign_one img (move code pos)") simp_all
    with 1 have n: "snd (trace rest (move code pos) img') = None" by simp
    from assign_one_Some(1,3) [OF s] Cons.IH(1) [OF n] s
    show ?case by (auto simp: list_all_visited) }
  { case 2
    then obtain img' where s: "assign_one img (move code pos) = Some img'"
      by (cases "assign_one img (move code pos)") simp_all
    with 2 have n: "snd (trace rest (move code pos) img') = None" by simp
    from assign_one_Some(2,4) [OF s] Cons.IH(2) [OF n] s
    show ?case by (auto simp: list_all_visited) }
qed

lemma trace_grows:
  "nrows img \<le> nrows (fst (trace steps pos img))" "ncols img \<le> ncols (fst (trace steps pos img))"
proof (induction steps arbitrary: pos img)
  case Nil
  { case 1 show ?case by simp }
  { case 2 show ?case by simp }
next
  case (Cons code rest)
  { case 1
    show ?case
    proof (cases "assign_one img (move code pos)")
      case None then show ?thesis by simp
    next
      case (Some img')
      from assign_one_Some(3) [OF Some] Cons.IH(1) [of img' "move code pos"] Some
      show ?thesis by simp
    qed }
  { case 2
    show ?case
    proof (cases "assign_one img (move code pos)")
      case None then show ?thesis by simp
    next
      case (Some img')
      from assign_one_Some(4) [OF Some] Cons.IH(2) [of img' "move code pos"] Some
      show ?thesis by simp
    qed }
qed


lemma make_annotation_image_fits:
  assumes a: "assign_one (zeros (rows, cols)) (c2, c1) = Some img1"
    and t: "snd (trace steps (c2, c1) img1) = None"
  shows "nrows (fst (trace steps (c2, c1) img1)) = rows \<and> ncols (fst (trace steps (c2, c1) img1)) = cols
           \<longleftrightarrow> \<not> list_ex (\<lambda>p. fst p > int rows \<or> snd p > int cols) (visited (c2, c1) steps)"
proof -
  let ?img2 = "fst (trace steps (c2, c1) img1)"
  from assign_one_Some [OF a] have c: "1 \<le> c2" "1 \<le> c1"
    and n1: "nrows img1 = max rows (nat c2)" "ncols img1 = max cols (nat c1)"
    by (simp_all add: zeros_def)
  have ge: "rows \<le> nrows ?img2" "cols \<le> ncols ?img2"
    using trace_grows [of img1 steps "(c2, c1)"] n1 by simp_all
  have r: "nrows ?img2 = rows \<longleftrightarrow> list_all (\<lambda>p. fst p \<le> int rows) (visited (c2, c1) steps)"
  proof -
    have "nrows ?img2 = rows \<longleftrightarrow> nrows ?img2 \<le> rows" using ge by auto
    also have "\<dots> \<longleftrightarrow> nrows img1 \<le> rows
                 \<and> list_all (\<lambda>p. fst p \<le> int rows) (tl (visited (c2, c1) steps))"
      by (rule trace_size(1) [OF t])
    also have "nrows img1 \<le> rows \<longleftrightarrow> c2 \<le> int rows" using n1 c by auto
    finally show ?thesis by (simp add: list_all_visited [of _ "(c2, c1)"])
  qed
  have k: "ncols ?img2 = cols \<longleftrightarrow> list_all (\<lambda>p. snd p \<le> int cols) (visited (c2, c1) steps)"
  proof -
    have "ncols ?img2 = cols \<longleftrightarrow> ncols ?img2 \<le> cols" using ge by auto
    also have "\<dots> \<longleftrightarrow> ncols img1 \<le> cols
                 \<and> list_all (\<lambda>p. snd p \<le> int cols) (tl (visited (c2, c1) steps))"
      by (rule trace_size(2) [OF t])
    also have "ncols img1 \<le> cols \<longleftrightarrow> c1 \<le> int cols" using n1 c by auto
    finally show ?thesis by (simp add: list_all_visited [of _ "(c2, c1)"])
  qed
  show ?thesis unfolding r k
    by (auto simp: list_all_iff list_ex_iff not_less)
qed

lemma make_annotation_image_result:
  assumes "chain_code \<noteq> []" and "last chain_code = CHR ''#''"
    and "str2num (butlast chain_code) = c1 # c2 # steps"
  shows "snd (make_annotation_image str2num (rows, cols) chain_code) =
     (if list_ex (\<lambda>p. fst p < 1 \<or> snd p < 1) (visited (c2, c1) steps) then Inl BadSubscript
      else if list_ex (\<lambda>p. fst p > int rows \<or> snd p > int cols) (visited (c2, c1) steps)
        then Inl ProblemParsing
      else Inr (imfill_holes
                  (fst (trace steps (c2, c1) (the (assign_one (zeros (rows, cols)) (c2, c1)))))))"
proof (cases "assign_one (zeros (rows, cols)) (c2, c1)")
  case None
  then have "c2 < 1 \<or> c1 < 1" by (simp add: assign_one_None)
  then have "list_ex (\<lambda>p. fst p < 1 \<or> snd p < 1) (visited (c2, c1) steps)"
    by (simp add: list_ex_visited [of _ "(c2, c1)"])
  with None assms show ?thesis by (simp add: make_annotation_image_def)
next
  case (Some img1)
  from assign_one_Some(1,2) [OF Some] have c: "\<not> (c2 < 1 \<or> c1 < 1)" by simp
  have ex: "list_ex (\<lambda>p. fst p < 1 \<or> snd p < 1) (visited (c2, c1) steps)
              \<longleftrightarrow> list_ex (\<lambda>p. fst p < 1 \<or> snd p < 1) (tl (visited (c2, c1) steps))"
    using c by (simp add: list_ex_visited [of _ "(c2, c1)"])
  obtain img2 e where tr: "trace steps (c2, c1) img1 = (img2, e)" by (cases "trace steps (c2, c1) img1")
  show ?thesis
  proof (cases e)
    case (Some err)
    with tr trace_error [of steps "(c2, c1)" img1]
    have "list_ex (\<lambda>p. fst p < 1 \<or> snd p < 1) (tl (visited (c2, c1) steps))" "err = BadSubscript"
      by (auto split: if_splits)
    with ex tr Some \<open>assign_one (zeros (rows, cols)) (c2, c1) = Some img1\<close> assms
    show ?thesis by (simp add: make_annotation_image_def)
  next
    case None
    with tr have t: "snd (trace steps (c2, c1) img1) = None" by simp
    with trace_error [of steps "(c2, c1)" img1]
    have no: "\<not> list_ex (\<lambda>p. fst p < 1 \<or> snd p < 1) (visited (c2, c1) steps)"
      unfolding ex by (auto split: if_splits)
    from make_annotation_image_fits [OF \<open>assign_one (zeros (rows, cols)) (c2, c1) = Some img1\<close> t] tr
    have fit: "nrows img2 = rows \<and> ncols img2 = cols
           \<longleftrightarrow> \<not> list_ex (\<lambda>p. fst p > int rows \<or> snd p > int cols) (visited (c2, c1) steps)"
      by simp
    show ?thesis
    proof (cases "nrows img2 = rows \<and> ncols img2 = cols")
      case True
      with fit no tr None \<open>assign_one (zeros (rows, cols)) (c2, c1) = Some img1\<close> assms
      show ?thesis by (simp add: make_annotation_image_def Let_def)
    next
      case False
      with fit no tr None \<open>assign_one (zeros (rows, cols)) (c2, c1) = Some img1\<close> assms
      show ?thesis by (simp add: make_annotation_image_def Let_def)
    qed
  qed
qed


subsection \<open>The start, the bounds and the sentinel\<close>

lemma make_annotation_image_shape:
  assumes "snd (make_annotation_image str2num image_dims chain_code) = Inr anno"
  shows "nrows anno = fst image_dims \<and> ncols anno = snd image_dims"
  using assms
  by (auto simp: make_annotation_image_def Let_def
      split: if_splits list.splits option.splits prod.splits)

text \<open>
  C6: the first number of the chain code is the column and the second the row of the
  start: in every mask the function returns, the pixel in row \<open>c2\<close> and column \<open>c1\<close>
  is 1 (and lies inside the image).
\<close>

theorem start_pixel_column_row:
  assumes "chain_code \<noteq> []" and "last chain_code = CHR ''#''"
    and "str2num (butlast chain_code) = c1 # c2 # steps"
    and "snd (make_annotation_image str2num image_dims chain_code) = Inr anno"
  shows "1 \<le> c2 \<and> nat c2 \<le> fst image_dims \<and> 1 \<le> c1 \<and> nat c1 \<le> snd image_dims
         \<and> pixel anno (nat c2) (nat c1) = 1"
proof -
  obtain rows cols where d: "image_dims = (rows, cols)" by (cases image_dims)
  note res = make_annotation_image_result [where str2num = str2num and chain_code = chain_code, OF assms(1-3), of rows cols]
  from res assms(4) d
  have low: "\<not> list_ex (\<lambda>p. fst p < 1 \<or> snd p < 1) (visited (c2, c1) steps)"
    and high: "\<not> list_ex (\<lambda>p. fst p > int rows \<or> snd p > int cols) (visited (c2, c1) steps)"
    and m: "anno = imfill_holes
                  (fst (trace steps (c2, c1) (the (assign_one (zeros (rows, cols)) (c2, c1)))))"
    by (auto split: if_splits)
  from low have c: "1 \<le> c2" "1 \<le> c1" by (simp_all add: list_ex_visited [of _ "(c2, c1)"])
  from high have h: "c2 \<le> int rows" "c1 \<le> int cols"
    by (simp_all add: list_ex_visited [of _ "(c2, c1)"])
  from c obtain img1 where a: "assign_one (zeros (rows, cols)) (c2, c1) = Some img1"
    by (simp add: assign_one_def)
  from assign_one_Some(5) [OF a] have "pixel img1 (nat c2) (nat c1) = 1" by simp
  then have "pixel (fst (trace steps (c2, c1) img1)) (nat c2) (nat c1) = 1" by (rule trace_keeps)
  then have "pixel anno (nat c2) (nat c1) = 1" unfolding m a by (simp add: imfill_holes_keeps)
  with c h d show ?thesis by (simp add: nat_le_iff)
qed

lemma str2num_decimal_3_2: "str2num_decimal (butlast ''3 2#'') = [3, 2]"
  by (simp add: str2num_decimal_def digit_val_def)

theorem start_pixel_column_row_witness:
  "''3 2#'' \<noteq> [] \<and> last ''3 2#'' = CHR ''#''
   \<and> str2num_decimal (butlast ''3 2#'') = [3, 2]
   \<and> \<not> isl (snd (make_annotation_image str2num_decimal (2, 3) ''3 2#''))
   \<and> pixel (projr (snd (make_annotation_image str2num_decimal (2, 3) ''3 2#''))) 2 3 = 1
   \<and> snd (make_annotation_image str2num_decimal (3, 2) ''3 2#'') = Inl ProblemParsing"
proof -
  have n: "''3 2#'' \<noteq> []" and l: "last ''3 2#'' = CHR ''#''" by simp_all
  note res = make_annotation_image_result [where str2num = str2num_decimal and chain_code = "''3 2#''", OF n l str2num_decimal_3_2]
  obtain anno where r: "snd (make_annotation_image str2num_decimal (2, 3) ''3 2#'') = Inr anno"
    using res [of 2 3] by simp
  from start_pixel_column_row [where str2num = str2num_decimal and chain_code = "''3 2#''", OF n l str2num_decimal_3_2 r]
  have "pixel anno 2 3 = 1" by simp
  moreover have "snd (make_annotation_image str2num_decimal (3, 2) ''3 2#'') = Inl ProblemParsing"
    using res [of 3 2] by simp
  ultimately show ?thesis using r str2num_decimal_3_2 by simp
qed

text \<open>
  C7 (as the program has it): subscripts start at 1, so the rectangle is
  \<open>[1, rows] x [1, cols]\<close>. The function returns a mask, of the size asked for, exactly
  when every position of the trace lies in that rectangle. A position with a coordinate
  below 1 stops the function with the subscript error; otherwise a position beyond
  \<open>rows\<close> or \<open>cols\<close> enlarges the matrix and the function stops with the error of its
  final size test. No position is clamped or wrapped.
\<close>

theorem make_annotation_image_bounds:
  assumes "chain_code \<noteq> []" and "last chain_code = CHR ''#''"
    and "str2num (butlast chain_code) = c1 # c2 # steps"
  shows "(list_ex (\<lambda>p. fst p < 1 \<or> snd p < 1) (visited (c2, c1) steps)
            \<longrightarrow> snd (make_annotation_image str2num (rows, cols) chain_code) = Inl BadSubscript)
     \<and> (\<not> list_ex (\<lambda>p. fst p < 1 \<or> snd p < 1) (visited (c2, c1) steps)
          \<and> list_ex (\<lambda>p. fst p > int rows \<or> snd p > int cols) (visited (c2, c1) steps)
            \<longrightarrow> snd (make_annotation_image str2num (rows, cols) chain_code) = Inl ProblemParsing)
     \<and> (list_all (\<lambda>p. 1 \<le> fst p \<and> fst p \<le> int rows \<and> 1 \<le> snd p \<and> snd p \<le> int cols)
            (visited (c2, c1) steps)
          \<longleftrightarrow> (\<exists>anno. snd (make_annotation_image str2num (rows, cols) chain_code) = Inr anno
                      \<and> nrows anno = rows \<and> ncols anno = cols))"
proof -
  note res = make_annotation_image_result [where str2num = str2num and chain_code = chain_code, OF assms, of rows cols]
  have inside: "list_all (\<lambda>p. 1 \<le> fst p \<and> fst p \<le> int rows \<and> 1 \<le> snd p \<and> snd p \<le> int cols)
            (visited (c2, c1) steps)
       \<longleftrightarrow> \<not> list_ex (\<lambda>p. fst p < 1 \<or> snd p < 1) (visited (c2, c1) steps)
           \<and> \<not> list_ex (\<lambda>p. fst p > int rows \<or> snd p > int cols) (visited (c2, c1) steps)"
    by (auto simp: list_all_iff list_ex_iff not_less)
  have shape: "\<And>anno. snd (make_annotation_image str2num (rows, cols) chain_code) = Inr anno
                  \<Longrightarrow> nrows anno = rows \<and> ncols anno = cols"
    using make_annotation_image_shape [of str2num "(rows, cols)" chain_code] by simp
  show ?thesis
  proof (intro conjI impI)
    assume "list_ex (\<lambda>p. fst p < 1 \<or> snd p < 1) (visited (c2, c1) steps)"
    with res show "snd (make_annotation_image str2num (rows, cols) chain_code) = Inl BadSubscript"
      by simp
  next
    assume "\<not> list_ex (\<lambda>p. fst p < 1 \<or> snd p < 1) (visited (c2, c1) steps)
          \<and> list_ex (\<lambda>p. fst p > int rows \<or> snd p > int cols) (visited (c2, c1) steps)"
    with res show "snd (make_annotation_image str2num (rows, cols) chain_code) = Inl ProblemParsing"
      by simp
  next
    show "list_all (\<lambda>p. 1 \<le> fst p \<and> fst p \<le> int rows \<and> 1 \<le> snd p \<and> snd p \<le> int cols)
            (visited (c2, c1) steps)
          \<longleftrightarrow> (\<exists>anno. snd (make_annotation_image str2num (rows, cols) chain_code) = Inr anno
                      \<and> nrows anno = rows \<and> ncols anno = cols)"
    proof
      assume "list_all (\<lambda>p. 1 \<le> fst p \<and> fst p \<le> int rows \<and> 1 \<le> snd p \<and> snd p \<le> int cols)
            (visited (c2, c1) steps)"
      with inside res obtain anno
        where "snd (make_annotation_image str2num (rows, cols) chain_code) = Inr anno" by simp
      with shape show "\<exists>anno. snd (make_annotation_image str2num (rows, cols) chain_code) = Inr anno
                      \<and> nrows anno = rows \<and> ncols anno = cols" by blast
    next
      assume "\<exists>anno. snd (make_annotation_image str2num (rows, cols) chain_code) = Inr anno
                      \<and> nrows anno = rows \<and> ncols anno = cols"
      with res inside
      show "list_all (\<lambda>p. 1 \<le> fst p \<and> fst p \<le> int rows \<and> 1 \<le> snd p \<and> snd p \<le> int cols)
            (visited (c2, c1) steps)"
        by (auto split: if_splits)
    qed
  qed
qed

lemma str2num_decimal_1_1_3: "str2num_decimal (butlast ''1 1 3#'') = [1, 1, 3]"
  by (simp add: str2num_decimal_def digit_val_def)

lemma str2num_decimal_1_1_0: "str2num_decimal (butlast ''1 1 0#'') = [1, 1, 0]"
  by (simp add: str2num_decimal_def digit_val_def)

theorem make_annotation_image_bounds_witness:
  "''1 1 3#'' \<noteq> [] \<and> last ''1 1 3#'' = CHR ''#''
   \<and> str2num_decimal (butlast ''1 1 3#'') = [1, 1, 3]
   \<and> visited (1, 1) [3] = [(1, 1), (2, 2)]
   \<and> (\<exists>anno. snd (make_annotation_image str2num_decimal (2, 2) ''1 1 3#'') = Inr anno
              \<and> nrows anno = 2 \<and> ncols anno = 2)
   \<and> snd (make_annotation_image str2num_decimal (1, 1) ''1 1 3#'') = Inl ProblemParsing
   \<and> str2num_decimal (butlast ''1 1 0#'') = [1, 1, 0]
   \<and> visited (1, 1) [0] = [(1, 1), (0, 1)]
   \<and> snd (make_annotation_image str2num_decimal (2, 2) ''1 1 0#'') = Inl BadSubscript"
proof -
  have n: "''1 1 3#'' \<noteq> []" and l: "last ''1 1 3#'' = CHR ''#''" by simp_all
  have n0: "''1 1 0#'' \<noteq> []" and l0: "last ''1 1 0#'' = CHR ''#''" by simp_all
  have v: "visited (1, 1) [3] = [(1, 1), (2, 2)]" "visited (1, 1) [0] = [(1, 1), (0, 1)]"
    by (simp_all add: move_def)
  from make_annotation_image_bounds [where str2num = str2num_decimal and chain_code = "''1 1 3#''", OF n l str2num_decimal_1_1_3, of 2 2]
       make_annotation_image_bounds [where str2num = str2num_decimal and chain_code = "''1 1 3#''", OF n l str2num_decimal_1_1_3, of 1 1]
       make_annotation_image_bounds [where str2num = str2num_decimal and chain_code = "''1 1 0#''", OF n0 l0 str2num_decimal_1_1_0, of 2 2]
  show ?thesis unfolding v
    by (simp add: str2num_decimal_1_1_3 [simplified] str2num_decimal_1_1_0 [simplified])
qed

text \<open>
  C7 (as stated) takes the rectangle as \<open>[0, rows) x [0, cols)\<close>. In a 2 x 2 image
  the chain code \<open>1 1 3#\<close> moves from (1, 1) to (2, 2), which is outside
  \<open>[0, 2) x [0, 2)\<close>; the function returns a mask with that pixel set.
\<close>

theorem out_of_bounds_counterexample:
  "str2num_decimal (butlast ''1 1 3#'') = [1, 1, 3]
   \<and> visited (1, 1) [3] = [(1, 1), (2, 2)]
   \<and> \<not> (0 \<le> (2::int) \<and> (2::int) < int 2)
   \<and> \<not> isl (snd (make_annotation_image str2num_decimal (2, 2) ''1 1 3#''))
   \<and> pixel (projr (snd (make_annotation_image str2num_decimal (2, 2) ''1 1 3#''))) 2 2 = 1"
proof -
  have n: "''1 1 3#'' \<noteq> []" and l: "last ''1 1 3#'' = CHR ''#''" by simp_all
  have v: "visited (1, 1) [3] = [(1, 1), (2, 2)]" by (simp add: move_def)
  have r: "snd (make_annotation_image str2num_decimal (2, 2) ''1 1 3#'')
             = Inr (imfill_holes (fst (trace [3] (1, 1) (the (assign_one (zeros (2, 2)) (1, 1))))))"
    using make_annotation_image_result [where str2num = str2num_decimal and chain_code = "''1 1 3#''", OF n l str2num_decimal_1_1_3, of 2 2] unfolding v by simp
  have "pixel (fst (trace [3] (1, 1) (the (assign_one (zeros (2, 2)) (1, 1))))) 2 2 = 1"
    by (simp add: assign_one_def zeros_def move_def)
  then have "pixel (imfill_holes (fst (trace [3] (1, 1) (the (assign_one (zeros (2, 2)) (1, 1)))))) 2 2 = 1"
    by (rule imfill_holes_keeps)
  with r v str2num_decimal_1_1_3 show ?thesis by simp
qed

text \<open>
  C8: a chain code whose last character is not \<open>#\<close> stops the function with the error
  "Chain codes must end in a # character", and the matrix \<open>anno_image\<close> has not been
  created at that point.
\<close>

theorem missing_sentinel_fails_first:
  assumes "chain_code \<noteq> []" and "last chain_code \<noteq> CHR ''#''"
  shows "make_annotation_image str2num image_dims chain_code = (None, Inl MissingSentinel)"
  using assms by (simp add: make_annotation_image_def)

theorem missing_sentinel_fails_first_witness:
  "''3 2 4 4'' \<noteq> [] \<and> last ''3 2 4 4'' \<noteq> CHR ''#''
   \<and> make_annotation_image str2num_decimal (10, 10) ''3 2 4 4'' = (None, Inl MissingSentinel)"
proof -
  have n: "''3 2 4 4'' \<noteq> []" and l: "last ''3 2 4 4'' \<noteq> CHR ''#''" by simp_all
  from missing_sentinel_fails_first [OF n l, of str2num_decimal "(10, 10)"] n l
  show ?thesis by simp
qed

subsection \<open>Several boundary chain codes\<close>

lemma bc_loop_boundary_run:
  assumes "cs \<noteq> []"
    and "\<forall>l \<in> set cs. \<not> contains ''BOUNDARY'' l \<and> \<not> contains ''CORE'' l"
  shows "bc_loop (cs @ rest) (Some Boundary) anns
           = bc_loop rest (Some Boundary) (anns\<lparr>boundary := Some (last cs)\<rparr>)"
  using assms
proof (induction cs arbitrary: anns)
  case Nil
  then show ?case by simp
next
  case (Cons l ls)
  show ?case
  proof (cases "ls = []")
    case True
    with Cons.prems show ?thesis by simp
  next
    case False
    with Cons.prems Cons.IH [OF False, of "anns\<lparr>boundary := Some l\<rparr>"]
    show ?thesis by simp
  qed
qed

text \<open>
  C10: chain-code lines that follow each other while the next code is a boundary do
  not make the parse fail; each replaces the boundary stored before, so that the last
  one is kept and the cores are untouched. In particular, a section that consists of
  a \<open>BOUNDARY\<close> line and such lines parses to the boundary of the last line.
\<close>

theorem boundary_last_chain_code_wins:
  assumes "cs \<noteq> []"
    and "\<forall>l \<in> set cs. \<not> contains ''BOUNDARY'' l \<and> \<not> contains ''CORE'' l"
  shows "bc_loop (cs @ rest) (Some Boundary) anns
           = bc_loop rest (Some Boundary) (anns\<lparr>boundary := Some (last cs)\<rparr>)
     \<and> (contains ''BOUNDARY'' kw \<longrightarrow>
          parse_boundary_and_cores (kw # cs) = Inr \<lparr>boundary = Some (last cs), cores = []\<rparr>)"
proof (intro conjI impI)
  show "bc_loop (cs @ rest) (Some Boundary) anns
           = bc_loop rest (Some Boundary) (anns\<lparr>boundary := Some (last cs)\<rparr>)"
    by (rule bc_loop_boundary_run [OF assms])
next
  assume "contains ''BOUNDARY'' kw"
  with bc_loop_boundary_run [OF assms, of "[]" "\<lparr>boundary = None, cores = []\<rparr>"]
  show "parse_boundary_and_cores (kw # cs) = Inr \<lparr>boundary = Some (last cs), cores = []\<rparr>"
    by (simp add: parse_boundary_and_cores_def)
qed

theorem boundary_last_chain_code_wins_witness:
  "[''1 2 0 0 #'', ''5 6 4 4 #''] \<noteq> []
   \<and> \<not> contains ''BOUNDARY'' ''1 2 0 0 #'' \<and> \<not> contains ''CORE'' ''1 2 0 0 #''
   \<and> \<not> contains ''BOUNDARY'' ''5 6 4 4 #'' \<and> \<not> contains ''CORE'' ''5 6 4 4 #''
   \<and> contains ''BOUNDARY'' ''  BOUNDARY''
   \<and> parse_boundary_and_cores [''  BOUNDARY'', ''1 2 0 0 #'', ''5 6 4 4 #'']
       = Inr \<lparr>boundary = Some ''5 6 4 4 #'', cores = []\<rparr>
   \<and> parse_boundary_and_cores [''  BOUNDARY'', ''1 2 0 0 #'', ''5 6 4 4 #'', ''  CORE'', ''7 8 2 #'']
       = Inr \<lparr>boundary = Some ''5 6 4 4 #'', cores = [''7 8 2 #'']\<rparr>"
proof -
  have n: "[''1 2 0 0 #'', ''5 6 4 4 #''] \<noteq> []" by simp
  have k: "\<forall>l \<in> set [''1 2 0 0 #'', ''5 6 4 4 #''].
              \<not> contains ''BOUNDARY'' l \<and> \<not> contains ''CORE'' l" by simp
  have b: "contains ''BOUNDARY'' ''  BOUNDARY''" by simp
  from boundary_last_chain_code_wins [OF n k, of "[''  CORE'', ''7 8 2 #'']"
         "\<lparr>boundary = None, cores = []\<rparr>" "''  BOUNDARY''"] b
  have "parse_boundary_and_cores [''  BOUNDARY'', ''1 2 0 0 #'', ''5 6 4 4 #'']
          = Inr \<lparr>boundary = Some ''5 6 4 4 #'', cores = []\<rparr>"
    and "bc_loop ([''1 2 0 0 #'', ''5 6 4 4 #''] @ [''  CORE'', ''7 8 2 #''])
            (Some Boundary) \<lparr>boundary = None, cores = []\<rparr>
          = Inr \<lparr>boundary = Some ''5 6 4 4 #'', cores = [''7 8 2 #'']\<rparr>"
    by simp_all
  then show ?thesis using k b by (simp add: parse_boundary_and_cores_def)
qed

end
